theory Spec2Isabelle
  imports Main "HOL-Library.Word"
begin

section \<open>The transaction manager of \<open>src/transaction/transaction_manager.cpp\<close>\<close>

subsection \<open>Data model\<close>

text \<open>Modelled from the spec: the declaration of \<open>timestamp_t\<close> is in a header that is not
  among the sources. The specification calls a timestamp a 64-bit signed integer. It is a
  64-bit word here: \<open>time_++\<close> wraps around, \<open>id + INT64_MIN\<close> sets the top bit, and
  timestamps are compared in the signed order \<open><s\<close> and read with \<open>sint\<close>.
\<close>

type_synonym timestamp_t = "64 word"

definition INT64_MIN :: timestamp_t where
  "INT64_MIN = 0x8000000000000000"

text \<open>
  Objects live in an explicit store. A \<open>TransactionContext *\<close>, a \<open>DataTable *\<close> and an
  \<open>UndoRecord *\<close> are addresses; a possibly null \<open>UndoRecord *\<close> is an \<open>option\<close>, with
  \<open>None\<close> for \<open>nullptr\<close>.
\<close>

type_synonym txn_ptr = nat
type_synonym rec_ptr = nat
type_synonym table_ptr = nat
type_synonym TupleSlot = nat
type_synonym col_id = nat

text \<open>Modelled from the spec: the declarations of \<open>ProjectedRow\<close>, \<open>UndoRecord\<close>,
  \<open>TransactionContext\<close> and \<open>DataTable\<close> are in headers that are not among the sources;
  the records below have the members that the accessors used in the source read and write
  (\<open>Timestamp()\<close>, \<open>Table()\<close>, \<open>Slot()\<close>, \<open>Delta()\<close>, \<open>Next()\<close>, \<open>StartTime()\<close>, \<open>TxnId()\<close>,
  \<open>GetUndoBuffer()\<close>), with the meaning the specification gives them.

  A projected row (the \<open>delta\<close> of an undo record) lists column ids with the values held
  for them; \<open>NumColumns\<close> is the number of entries.
\<close>

type_synonym 'v ProjectedRow = "(col_id \<times> 'v) list"

definition NumColumns :: "'v ProjectedRow \<Rightarrow> nat" where
  "NumColumns row = length row"

record 'v UndoRecord =
  Timestamp :: timestamp_t
  Table :: table_ptr
  Slot :: TupleSlot
  Delta :: "'v ProjectedRow"
  Next :: "rec_ptr option"

text \<open>
  A transaction context. The undo buffer holds its records in place, so the model keeps
  the addresses of the records, in the order in which iteration visits them; the version
  chains point at the same addresses.
\<close>

record TransactionContext =
  StartTime :: timestamp_t
  TxnId :: timestamp_t
  UndoBuffer :: "rec_ptr list"

text \<open>
  A data table, as far as the manager uses it: per tuple slot, the head of the version
  chain and the attribute values of the tuple.
\<close>

record 'v DataTable =
  version_ptr :: "TupleSlot \<Rightarrow> rec_ptr option"
  attrs :: "TupleSlot \<Rightarrow> col_id \<Rightarrow> 'v"

datatype failure =
  StartTimeNotUnique
  | CommittedTxnNotInTable
  | AbortedTxnNotInTable
  | CompletedQueueNotEmpty

text \<open>
  The manager's members together with the store of the objects its pointers refer to.
  The members keep their names without the trailing underscore, which a name cannot end
  with here: \<open>time\<close>, \<open>curr_running_txns\<close>, \<open>completed_txns\<close>, \<open>gc_enabled\<close>.
  \<open>curr_running_txns\<close> is a \<open>std::map\<close>: an association list kept in ascending key
  order, so that \<open>begin()\<close> is its first entry. \<open>completed_txns\<close> is a \<open>std::queue\<close>:
  a list with the front first.
\<close>

record 'v state =
  time :: timestamp_t
  curr_running_txns :: "(timestamp_t \<times> txn_ptr) list"
  completed_txns :: "txn_ptr list"
  gc_enabled :: bool
  contexts :: "txn_ptr \<Rightarrow> TransactionContext"
  next_context :: txn_ptr
  undo_records :: "rec_ptr \<Rightarrow> 'v UndoRecord"
  next_record :: rec_ptr
  tables :: "table_ptr \<Rightarrow> 'v DataTable"

subsection \<open>The running table: \<open>std::map\<close> operations\<close>

text \<open>
  \<open>emplace\<close> inserts a key that is absent at its place in the order and reports
  \<open>True\<close>; for a key that is present it changes nothing and reports \<open>False\<close>.
\<close>

fun emplace :: "timestamp_t \<Rightarrow> txn_ptr \<Rightarrow> (timestamp_t \<times> txn_ptr) list
    \<Rightarrow> (timestamp_t \<times> txn_ptr) list \<times> bool" where
  "emplace k v [] = ([(k, v)], True)"
| "emplace k v ((k', v') # m) =
     (if k = k' then ((k', v') # m, False)
      else if k <s k' then ((k, v) # (k', v') # m, True)
      else ((k', v') # fst (emplace k v m), snd (emplace k v m)))"

text \<open>\<open>erase\<close> by key removes the entry with that key and returns how many it removed.\<close>

definition erase :: "timestamp_t \<Rightarrow> (timestamp_t \<times> txn_ptr) list
    \<Rightarrow> (timestamp_t \<times> txn_ptr) list \<times> nat" where
  "erase k m =
     (filter (\<lambda>e. fst e \<noteq> k) m, length (filter (\<lambda>e. fst e = k) m))"

subsection \<open>Collaborators of the manager\<close>

text \<open>Modelled from the spec: the constructor \<open>TransactionContext(start, txn_id, buffer_pool)\<close>
  is declared in a header that is not among the sources. The context keeps the start time
  and the transient id it is given and starts with an empty undo buffer.
\<close>

definition new_TransactionContext :: "timestamp_t \<Rightarrow> timestamp_t \<Rightarrow> TransactionContext" where
  "new_TransactionContext start txn_id =
     \<lparr>StartTime = start, TxnId = txn_id, UndoBuffer = []\<rparr>"

text \<open>Modelled from the spec: \<open>DataTable::AtomicallyReadVersionPtr\<close> is not among the
  sources. It reads the head of the version chain of a slot.
\<close>

definition AtomicallyReadVersionPtr :: "table_ptr \<Rightarrow> TupleSlot \<Rightarrow> 'v state \<Rightarrow> rec_ptr option" where
  "AtomicallyReadVersionPtr table slot s = version_ptr (tables s table) slot"

text \<open>Modelled from the spec: \<open>DataTable::AtomicallyWriteVersionPtr\<close> is not among the
  sources. It stores a new head of the version chain of a slot.
\<close>

definition AtomicallyWriteVersionPtr :: "table_ptr \<Rightarrow> TupleSlot \<Rightarrow> rec_ptr option
    \<Rightarrow> 'v state \<Rightarrow> 'v state" where
  "AtomicallyWriteVersionPtr table slot p s =
     s\<lparr>tables := (tables s)(table :=
         (tables s table)\<lparr>version_ptr := (version_ptr (tables s table))(slot := p)\<rparr>)\<rparr>"

text \<open>Modelled from the spec: \<open>StorageUtil::CopyAttrFromProjection\<close> is not among the
  sources. It copies the value of the \<open>i\<close>-th entry of a projected row into the column of
  the tuple slot that the entry names.
\<close>

definition CopyAttrFromProjection :: "table_ptr \<Rightarrow> TupleSlot \<Rightarrow> 'v ProjectedRow \<Rightarrow> nat
    \<Rightarrow> 'v state \<Rightarrow> 'v state" where
  "CopyAttrFromProjection table slot row i s =
     s\<lparr>tables := (tables s)(table :=
         (tables s table)\<lparr>attrs := (attrs (tables s table))(slot :=
            (attrs (tables s table) slot)(fst (row ! i) := snd (row ! i)))\<rparr>)\<rparr>"

subsection \<open>The operations of the manager\<close>

text \<open>
  \<open>BeginTransaction\<close>: draw a timestamp by post-increment, allocate a context at a fresh
  address with start time \<open>id\<close> and transient id \<open>id + INT64_MIN\<close>, and register it under
  its start time. The assertion on the result of \<open>emplace\<close> is a failure of the model.
\<close>

definition BeginTransaction :: "'v state \<Rightarrow> failure + (txn_ptr \<times> 'v state)" where
  "BeginTransaction s =
     (let id = time s;
          s1 = s\<lparr>time := time s + 1\<rparr>;
          result = next_context s1;
          s2 = s1\<lparr>contexts := (contexts s1)(result := new_TransactionContext id (id + INT64_MIN)),
                  next_context := Suc result\<rparr>;
          ret = emplace (StartTime (contexts s2 result)) result (curr_running_txns s2)
      in if \<not> snd ret then Inl StartTimeNotUnique
         else Inr (result, s2\<lparr>curr_running_txns := fst ret\<rparr>))"

text \<open>The loop of \<open>Commit\<close> over the undo buffer: store the commit time in each record.\<close>

definition store_Timestamp :: "timestamp_t \<Rightarrow> rec_ptr \<Rightarrow> 'v state \<Rightarrow> 'v state" where
  "store_Timestamp t it s =
     s\<lparr>undo_records := (undo_records s)(it := (undo_records s it)\<lparr>Timestamp := t\<rparr>)\<rparr>"

definition Commit :: "txn_ptr \<Rightarrow> 'v state \<Rightarrow> failure + (timestamp_t \<times> 'v state)" where
  "Commit txn s =
     (let commit_time = time s;
          s1 = s\<lparr>time := time s + 1\<rparr>;
          undos = UndoBuffer (contexts s1 txn);
          s2 = fold (store_Timestamp commit_time) undos s1;
          start_time = StartTime (contexts s2 txn);
          er = erase start_time (curr_running_txns s2);
          s3 = s2\<lparr>curr_running_txns := fst er\<rparr>
      in if snd er \<noteq> 1 then Inl CommittedTxnNotInTable
         else
           (let s4 = s3\<lparr>contexts := (contexts s3)(txn := (contexts s3 txn)\<lparr>TxnId := commit_time\<rparr>)\<rparr>;
                s5 = (if gc_enabled s4 then s4\<lparr>completed_txns := completed_txns s4 @ [txn]\<rparr> else s4)
            in Inr (commit_time, s5)))"

text \<open>
  \<open>Rollback\<close> takes the record by reference and reads only its table and slot; the
  timestamp it tests, the delta it copies and the \<open>next\<close> it installs are those of the
  record the version pointer of the slot refers to. The loop counter of the copy is a
  \<open>uint16_t\<close> that runs up to \<open>NumColumns()\<close>; the model takes the number of columns of a
  row to fit that type, so the loop visits every index below it once.
\<close>

definition Rollback :: "timestamp_t \<Rightarrow> rec_ptr \<Rightarrow> 'v state \<Rightarrow> 'v state" where
  "Rollback txn_id record s =
     (let table = Table (undo_records s record);
          slot = Slot (undo_records s record)
      in case AtomicallyReadVersionPtr table slot s of
           None \<Rightarrow> s
         | Some vp \<Rightarrow>
             if Timestamp (undo_records s vp) \<noteq> txn_id then s
             else
               (let delta = Delta (undo_records s vp);
                    s1 = fold (CopyAttrFromProjection table slot delta) [0 ..< NumColumns delta] s
                in AtomicallyWriteVersionPtr table slot (Next (undo_records s1 vp)) s1))"

definition Abort :: "txn_ptr \<Rightarrow> 'v state \<Rightarrow> failure + 'v state" where
  "Abort txn s =
     (let undos = UndoBuffer (contexts s txn);
          txn_id = TxnId (contexts s txn);
          s1 = fold (Rollback txn_id) undos s;
          start_time = StartTime (contexts s1 txn);
          er = erase start_time (curr_running_txns s1);
          s2 = s1\<lparr>curr_running_txns := fst er\<rparr>
      in if snd er \<noteq> 1 then Inl AbortedTxnNotInTable
         else Inr (if gc_enabled s2 then s2\<lparr>completed_txns := completed_txns s2 @ [txn]\<rparr> else s2))"

definition OldestTransactionStartTime :: "'v state \<Rightarrow> timestamp_t" where
  "OldestTransactionStartTime s =
     (case curr_running_txns s of
        [] \<Rightarrow> time s
      | oldest_txn # _ \<Rightarrow> StartTime (contexts s (snd oldest_txn)))"

text \<open>
  \<open>CompletedTransactionsForGC\<close> move-constructs the result from \<open>completed_txns\<close>, which
  leaves the member empty, and asserts that it is.
\<close>

definition CompletedTransactionsForGC :: "'v state \<Rightarrow> failure + (txn_ptr list \<times> 'v state)" where
  "CompletedTransactionsForGC s =
     (let hand_to_gc = completed_txns s;
          s1 = s\<lparr>completed_txns := []\<rparr>
      in if completed_txns s1 \<noteq> [] then Inl CompletedQueueNotEmpty
         else Inr (hand_to_gc, s1))"

subsection \<open>A fresh manager, sequences of operations, and writes\<close>

text \<open>Modelled from the spec: the constructor of the manager and the initial value of its
  timestamp source are declared in a header that is not among the sources. A fresh
  manager has an empty running table and an empty completed queue, and no context or
  undo record has been allocated; the first timestamp \<open>t0\<close>, the GC flag and the tables it
  works on are parameters.
\<close>

definition fresh_manager :: "timestamp_t \<Rightarrow> bool \<Rightarrow> (table_ptr \<Rightarrow> 'v DataTable) \<Rightarrow> 'v state" where
  "fresh_manager t0 gc tabs =
     \<lparr>time = t0, curr_running_txns = [], completed_txns = [], gc_enabled = gc,
      contexts = (\<lambda>_. new_TransactionContext 0 0), next_context = 0,
      undo_records = (\<lambda>_. \<lparr>Timestamp = 0, Table = 0, Slot = 0, Delta = [], Next = None\<rparr>),
      next_record = 0, tables = tabs\<rparr>"

text \<open>
  The public operations as commands, and the run of a sequence of them from a state.
  A run returns the timestamps drawn from the timestamp source, in the order drawn, with
  the final state; it stops with the failure of the first assertion that fails.
\<close>

datatype manager_op =
  Begin
  | CommitOp txn_ptr
  | AbortOp txn_ptr
  | OldestOp
  | TakeCompletedOp

fun step :: "manager_op \<Rightarrow> 'v state \<Rightarrow> failure + (timestamp_t list \<times> 'v state)" where
  "step Begin s =
     (case BeginTransaction s of
        Inl e \<Rightarrow> Inl e
      | Inr (txn, s') \<Rightarrow> Inr ([StartTime (contexts s' txn)], s'))"
| "step (CommitOp txn) s =
     (case Commit txn s of
        Inl e \<Rightarrow> Inl e
      | Inr (commit_time, s') \<Rightarrow> Inr ([commit_time], s'))"
| "step (AbortOp txn) s =
     (case Abort txn s of
        Inl e \<Rightarrow> Inl e
      | Inr s' \<Rightarrow> Inr ([], s'))"
| "step OldestOp s = Inr ([], s)"
| "step TakeCompletedOp s =
     (case CompletedTransactionsForGC s of
        Inl e \<Rightarrow> Inl e
      | Inr (q, s') \<Rightarrow> Inr ([], s'))"

fun run :: "manager_op list \<Rightarrow> 'v state \<Rightarrow> failure + (timestamp_t list \<times> 'v state)" where
  "run [] s = Inr ([], s)"
| "run (c # cs) s =
     (case step c s of
        Inl e \<Rightarrow> Inl e
      | Inr (ts, s') \<Rightarrow>
          (case run cs s' of
             Inl e \<Rightarrow> Inl e
           | Inr (ts', s'') \<Rightarrow> Inr (ts @ ts', s'')))"

text \<open>The contexts a sequence of operations completes, in completion order.\<close>

fun completed_by :: "manager_op list \<Rightarrow> txn_ptr list" where
  "completed_by [] = []"
| "completed_by (CommitOp txn # cs) = txn # completed_by cs"
| "completed_by (AbortOp txn # cs) = txn # completed_by cs"
| "completed_by (_ # cs) = completed_by cs"

text \<open>Modelled from the spec: the write path of a transaction (\<open>DataTable::Update\<close>) is not
  among the sources. A write by \<open>txn\<close> of the row \<open>redo\<close> to a slot appends an undo record
  to the undo buffer of \<open>txn\<close>, at a fresh address: its timestamp word is the transient id
  of \<open>txn\<close>, its delta holds the prior values of the columns the write modifies, and its
  \<open>next\<close> is the head of the version chain at that time. The record becomes the head of
  the chain, and the new values are written into the tuple.
\<close>

definition Update :: "txn_ptr \<Rightarrow> table_ptr \<Rightarrow> TupleSlot \<Rightarrow> 'v ProjectedRow \<Rightarrow> 'v state \<Rightarrow> 'v state" where
  "Update txn table slot redo s =
     (let undo = next_record s;
          before_image = map (\<lambda>e. (fst e, attrs (tables s table) slot (fst e))) redo;
          s1 = s\<lparr>undo_records := (undo_records s)(undo :=
                    \<lparr>Timestamp = TxnId (contexts s txn), Table = table, Slot = slot,
                     Delta = before_image, Next = AtomicallyReadVersionPtr table slot s\<rparr>),
                 next_record := Suc undo,
                 contexts := (contexts s)(txn :=
                    (contexts s txn)\<lparr>UndoBuffer := UndoBuffer (contexts s txn) @ [undo]\<rparr>)\<rparr>;
          s2 = AtomicallyWriteVersionPtr table slot (Some undo) s1
      in fold (CopyAttrFromProjection table slot redo) [0 ..< NumColumns redo] s2)"

text \<open>A history of writes, each by some transaction to some slot of some table.\<close>

definition writes :: "(txn_ptr \<times> table_ptr \<times> TupleSlot \<times> 'v ProjectedRow) list \<Rightarrow> 'v state \<Rightarrow> 'v state" where
  "writes ws s = fold (\<lambda>w. Update (fst w) (fst (snd w)) (fst (snd (snd w))) (snd (snd (snd w)))) ws s"

subsection \<open>Notions used to state the properties\<close>

text \<open>The image of a tuple after a projected row has been copied into it, entry by entry.\<close>

definition copy_row :: "'v ProjectedRow \<Rightarrow> (col_id \<Rightarrow> 'v) \<Rightarrow> (col_id \<Rightarrow> 'v)" where
  "copy_row row img = fold (\<lambda>e f. f(fst e := snd e)) row img"

text \<open>
  \<open>linked recs h ps h0\<close>: starting at the pointer \<open>h\<close> and following \<open>Next\<close>, the version
  chain visits the records \<open>ps\<close> in this order and then continues at \<open>h0\<close>.
\<close>

fun linked :: "(rec_ptr \<Rightarrow> 'v UndoRecord) \<Rightarrow> rec_ptr option \<Rightarrow> rec_ptr list \<Rightarrow> rec_ptr option \<Rightarrow> bool" where
  "linked recs h [] h0 = (h = h0)"
| "linked recs h (p # ps) h0 = (h = Some p \<and> linked recs (Next (recs p)) ps h0)"

text \<open>The records of an undo buffer that are for a given slot of a given table, in buffer order.\<close>

definition records_for :: "'v state \<Rightarrow> table_ptr \<Rightarrow> TupleSlot \<Rightarrow> rec_ptr list \<Rightarrow> rec_ptr list" where
  "records_for s table slot undos =
     filter (\<lambda>r. Table (undo_records s r) = table \<and> Slot (undo_records s r) = slot) undos"

text \<open>
  The running table is well formed when its keys are strictly ascending and every entry
  is filed under the start time of the context it points to.
\<close>

definition running_ok :: "'v state \<Rightarrow> bool" where
  "running_ok s =
     (sorted_wrt (<s) (map fst (curr_running_txns s)) \<and>
      list_all (\<lambda>e. StartTime (contexts s (snd e)) = fst e \<and> snd e < next_context s)
        (curr_running_txns s))"

text \<open>
  \<open>owns_chain s txn table slot ps h0\<close>: the version chain of the slot starts with the
  records \<open>ps\<close>, which carry the id of \<open>txn\<close> and are as many as the undo buffer of
  \<open>txn\<close> holds for the slot, and continues at \<open>h0\<close>.
\<close>

definition owns_chain :: "'v state \<Rightarrow> txn_ptr \<Rightarrow> table_ptr \<Rightarrow> TupleSlot \<Rightarrow> rec_ptr list
    \<Rightarrow> rec_ptr option \<Rightarrow> bool" where
  "owns_chain s txn table slot ps h0 =
     (linked (undo_records s) (version_ptr (tables s table) slot) ps h0 \<and>
      length ps = length (records_for s table slot (UndoBuffer (contexts s txn))) \<and>
      (\<forall>p \<in> set ps. Timestamp (undo_records s p) = TxnId (contexts s txn)))"

text \<open>
  The relation between a state \<open>s0\<close> in which \<open>txn\<close> has not yet written a slot and a later
  state \<open>s\<close>: the records of \<open>txn\<close> for the slot sit on top of the chain that \<open>s0\<close> had,
  newest first, they and the undo buffer are allocated, and copying their deltas into the
  tuple in chain order gives the image the tuple had in \<open>s0\<close>.
\<close>

definition slot_inv :: "'v state \<Rightarrow> 'v state \<Rightarrow> txn_ptr \<Rightarrow> table_ptr \<Rightarrow> TupleSlot
    \<Rightarrow> rec_ptr list \<Rightarrow> bool" where
  "slot_inv s0 s txn table slot ps =
     (owns_chain s txn table slot ps (version_ptr (tables s0 table) slot) \<and>
      ps = rev (records_for s table slot (UndoBuffer (contexts s txn))) \<and>
      (\<forall>r \<in> set (UndoBuffer (contexts s txn)). r < next_record s) \<and>
      fold (\<lambda>p. copy_row (Delta (undo_records s p))) ps (attrs (tables s table) slot)
        = attrs (tables s0 table) slot)"

subsection \<open>Scenarios\<close>

text \<open>
  The running-table horizon scenario: begin two transactions, read the oldest start
  time, commit the first, read it again, commit the second, read it again. The result
  lists the two start times and the three readings.
\<close>

definition horizon_scenario :: "'v state
    \<Rightarrow> failure + (timestamp_t \<times> timestamp_t \<times> timestamp_t \<times> timestamp_t \<times> timestamp_t)" where
  "horizon_scenario s0 =
     (case BeginTransaction s0 of
        Inl e \<Rightarrow> Inl e
      | Inr (txn1, s1) \<Rightarrow>
     (case BeginTransaction s1 of
        Inl e \<Rightarrow> Inl e
      | Inr (txn2, s2) \<Rightarrow>
     (case Commit txn1 s2 of
        Inl e \<Rightarrow> Inl e
      | Inr (c1, s3) \<Rightarrow>
     (case Commit txn2 s3 of
        Inl e \<Rightarrow> Inl e
      | Inr (c2, s4) \<Rightarrow>
          Inr (StartTime (contexts s1 txn1), StartTime (contexts s2 txn2),
               OldestTransactionStartTime s2, OldestTransactionStartTime s3,
               OldestTransactionStartTime s4)))))"

text \<open>A begin followed at once by the abort of the transaction begun.\<close>

definition begin_then_abort :: "'v state \<Rightarrow> failure + 'v state" where
  "begin_then_abort s =
     (case BeginTransaction s of
        Inl e \<Rightarrow> Inl e
      | Inr (txn, s1) \<Rightarrow> Abort txn s1)"

text \<open>
  Concrete states: tables whose tuples hold 10 in every column and have no version
  chain; a fresh manager with first timestamp 1 in which one transaction has begun;
  that transaction after writing 99 to column 0 of slot 0 of table 0, and after then
  writing 77 to the same column; the manager after a second transaction has begun; and
  the manager after the first transaction has committed without writing, and after
  another transaction has then begun.
\<close>

definition demo_tables :: "table_ptr \<Rightarrow> int DataTable" where
  "demo_tables = (\<lambda>_. \<lparr>version_ptr = (\<lambda>_. None), attrs = (\<lambda>_ _. 10)\<rparr>)"

definition demo_fresh :: "int state" where
  "demo_fresh = fresh_manager 1 True demo_tables"

definition demo_begun :: "int state" where
  "demo_begun = (case BeginTransaction demo_fresh of Inl e \<Rightarrow> demo_fresh | Inr (txn, s) \<Rightarrow> s)"

definition demo_written_once :: "int state" where
  "demo_written_once = Update 0 0 0 [(0, 99)] demo_begun"

definition demo_written_twice :: "int state" where
  "demo_written_twice = writes [(0, 0, 0, [(0, 99)]), (0, 0, 0, [(0, 77)])] demo_begun"

definition demo_two_running :: "int state" where
  "demo_two_running =
     (case BeginTransaction demo_begun of Inl e \<Rightarrow> demo_begun | Inr (txn, s) \<Rightarrow> s)"

definition demo_committed :: "int state" where
  "demo_committed =
     (case Commit 0 demo_begun of Inl e \<Rightarrow> demo_begun | Inr (commit_time, s) \<Rightarrow> s)"

definition demo_begun_again :: "int state" where
  "demo_begun_again =
     (case BeginTransaction demo_committed of Inl e \<Rightarrow> demo_committed | Inr (txn, s) \<Rightarrow> s)"

section \<open>Lemmas\<close>

subsection \<open>The rollback of one record and the loop of Abort\<close>

lemma copy_loop_prefix:
  "n \<le> length row \<Longrightarrow>
   fold (CopyAttrFromProjection table slot row) [0 ..< n] s =
   s\<lparr>tables := (tables s)(table :=
       (tables s table)\<lparr>attrs := (attrs (tables s table))(slot :=
          copy_row (take n row) (attrs (tables s table) slot))\<rparr>)\<rparr>"
proof (induction n)
  case 0
  then show ?case by (simp add: copy_row_def)
next
  case (Suc n)
  then have IH: "fold (CopyAttrFromProjection table slot row) [0 ..< n] s =
     s\<lparr>tables := (tables s)(table :=
       (tables s table)\<lparr>attrs := (attrs (tables s table))(slot :=
          copy_row (take n row) (attrs (tables s table) slot))\<rparr>)\<rparr>"
    and n: "n < length row" using Suc.IH Suc.prems by linarith+
  have "fold (CopyAttrFromProjection table slot row) [0 ..< Suc n] s =
      CopyAttrFromProjection table slot row n
        (fold (CopyAttrFromProjection table slot row) [0 ..< n] s)"
    by simp
  also have "\<dots> = s\<lparr>tables := (tables s)(table :=
       (tables s table)\<lparr>attrs := (attrs (tables s table))(slot :=
          copy_row (take (Suc n) row) (attrs (tables s table) slot))\<rparr>)\<rparr>"
    unfolding IH using n
    by (simp add: CopyAttrFromProjection_def copy_row_def take_Suc_conv_app_nth)
  finally show ?case .
qed

lemma copy_loop:
  "fold (CopyAttrFromProjection table slot row) [0 ..< NumColumns row] s =
   s\<lparr>tables := (tables s)(table :=
       (tables s table)\<lparr>attrs := (attrs (tables s table))(slot :=
          copy_row row (attrs (tables s table) slot))\<rparr>)\<rparr>"
  by (simp add: NumColumns_def copy_loop_prefix)

lemma Rollback_owned:
  assumes "AtomicallyReadVersionPtr (Table (undo_records s r)) (Slot (undo_records s r)) s = Some vp"
    and "Timestamp (undo_records s vp) = txn_id"
  shows "Rollback txn_id r s =
     s\<lparr>tables := (tables s)(Table (undo_records s r) :=
        (tables s (Table (undo_records s r)))
        \<lparr>attrs := (attrs (tables s (Table (undo_records s r))))
            (Slot (undo_records s r) :=
               copy_row (Delta (undo_records s vp))
                 (attrs (tables s (Table (undo_records s r))) (Slot (undo_records s r)))),
         version_ptr := (version_ptr (tables s (Table (undo_records s r))))
            (Slot (undo_records s r) := Next (undo_records s vp))\<rparr>)\<rparr>"
  using assms
  by (simp add: Rollback_def Let_def copy_loop AtomicallyWriteVersionPtr_def)

lemma Rollback_other_fields:
  "time (Rollback t r s) = time s"
  "curr_running_txns (Rollback t r s) = curr_running_txns s"
  "completed_txns (Rollback t r s) = completed_txns s"
  "gc_enabled (Rollback t r s) = gc_enabled s"
  "contexts (Rollback t r s) = contexts s"
  "next_context (Rollback t r s) = next_context s"
  "undo_records (Rollback t r s) = undo_records s"
  "next_record (Rollback t r s) = next_record s"
  by (simp_all add: Rollback_def Let_def copy_loop AtomicallyWriteVersionPtr_def
      split: option.split)

lemma Rollback_frame:
  assumes "table \<noteq> Table (undo_records s r) \<or> slot \<noteq> Slot (undo_records s r)"
  shows "version_ptr (tables (Rollback t r s) table) slot = version_ptr (tables s table) slot"
    and "attrs (tables (Rollback t r s) table) slot = attrs (tables s table) slot"
  using assms
  by (auto simp: Rollback_def Let_def copy_loop AtomicallyWriteVersionPtr_def
      split: option.split)

lemma Rollback_pop:
  assumes "version_ptr (tables s (Table (undo_records s r))) (Slot (undo_records s r)) = Some vp"
    and "Timestamp (undo_records s vp) = t"
  shows "version_ptr (tables (Rollback t r s) (Table (undo_records s r))) (Slot (undo_records s r))
           = Next (undo_records s vp)"
    and "attrs (tables (Rollback t r s) (Table (undo_records s r))) (Slot (undo_records s r))
           = copy_row (Delta (undo_records s vp))
               (attrs (tables s (Table (undo_records s r))) (Slot (undo_records s r)))"
  using assms
  by (simp_all add: Rollback_def Let_def copy_loop AtomicallyWriteVersionPtr_def
      AtomicallyReadVersionPtr_def)

lemma fold_Rollback_other_fields:
  "time (fold (Rollback t) undos s) = time s"
  "curr_running_txns (fold (Rollback t) undos s) = curr_running_txns s"
  "completed_txns (fold (Rollback t) undos s) = completed_txns s"
  "gc_enabled (fold (Rollback t) undos s) = gc_enabled s"
  "contexts (fold (Rollback t) undos s) = contexts s"
  "next_context (fold (Rollback t) undos s) = next_context s"
  "undo_records (fold (Rollback t) undos s) = undo_records s"
  "next_record (fold (Rollback t) undos s) = next_record s"
  by (induction undos arbitrary: s; simp add: Rollback_other_fields)+

lemma records_for_Rollback:
  "records_for (Rollback t r s) table slot undos = records_for s table slot undos"
  by (simp add: records_for_def Rollback_other_fields)

lemma fold_Rollback_slot:
  assumes "linked (undo_records s) (version_ptr (tables s table) slot) ps h0"
    and "length ps = length (records_for s table slot undos)"
    and "\<forall>p \<in> set ps. Timestamp (undo_records s p) = t"
  shows "version_ptr (tables (fold (Rollback t) undos s) table) slot = h0
       \<and> attrs (tables (fold (Rollback t) undos s) table) slot
           = fold (\<lambda>p. copy_row (Delta (undo_records s p))) ps (attrs (tables s table) slot)"
  using assms
proof (induction undos arbitrary: s ps)
  case Nil
  then show ?case by (simp add: records_for_def)
next
  case (Cons r undos)
  let ?s' = "Rollback t r s"
  have recs: "undo_records ?s' = undo_records s" by (simp add: Rollback_other_fields)
  show ?case
  proof (cases "Table (undo_records s r) = table \<and> Slot (undo_records s r) = slot")
    case True
    with Cons.prems(2) obtain p ps' where ps: "ps = p # ps'"
      and len: "length ps' = length (records_for s table slot undos)"
      by (cases ps) (auto simp: records_for_def)
    from Cons.prems(1) ps have hd: "version_ptr (tables s table) slot = Some p"
      and lk: "linked (undo_records s) (Next (undo_records s p)) ps' h0" by simp_all
    from Cons.prems(3) ps have tsp: "Timestamp (undo_records s p) = t"
      and ts': "\<forall>q \<in> set ps'. Timestamp (undo_records s q) = t" by simp_all
    from True hd tsp have
      h': "version_ptr (tables ?s' table) slot = Next (undo_records s p)" and
      a': "attrs (tables ?s' table) slot = copy_row (Delta (undo_records s p)) (attrs (tables s table) slot)"
      using Rollback_pop[of s r p t] by auto
    have "version_ptr (tables (fold (Rollback t) undos ?s') table) slot = h0
       \<and> attrs (tables (fold (Rollback t) undos ?s') table) slot
           = fold (\<lambda>p. copy_row (Delta (undo_records ?s' p))) ps' (attrs (tables ?s' table) slot)"
      by (rule Cons.IH) (simp_all add: recs h' lk len ts' records_for_Rollback)
    then show ?thesis by (simp add: ps recs a')
  next
    case False
    then have fr: "version_ptr (tables ?s' table) slot = version_ptr (tables s table) slot"
        "attrs (tables ?s' table) slot = attrs (tables s table) slot"
      using Rollback_frame[of table s r slot t] by auto
    from False Cons.prems(2) have len: "length ps = length (records_for s table slot undos)"
      by (auto simp: records_for_def)
    have "version_ptr (tables (fold (Rollback t) undos ?s') table) slot = h0
       \<and> attrs (tables (fold (Rollback t) undos ?s') table) slot
           = fold (\<lambda>p. copy_row (Delta (undo_records ?s' p))) ps (attrs (tables ?s' table) slot)"
      by (rule Cons.IH) (simp_all add: recs fr Cons.prems(1,3) len records_for_Rollback)
    then show ?thesis by (simp add: recs fr)
  qed
qed

subsection \<open>The running table\<close>

lemma fst_emplace_Cons:
  "fst (emplace k v ((k', v') # m)) =
     (if k = k' then (k', v') # m
      else if k <s k' then (k, v) # (k', v') # m
      else (k', v') # fst (emplace k v m))"
  by simp

lemma snd_emplace_Cons:
  "snd (emplace k v ((k', v') # m)) =
     (if k = k' then False else if k <s k' then True else snd (emplace k v m))"
  by simp

lemma emplace_snd:
  "sorted_wrt (<s) (map fst m) \<Longrightarrow> snd (emplace k v m) = (k \<notin> fst ` set m)"
proof (induction m)
  case Nil
  then show ?case by simp
next
  case (Cons e m)
  obtain k' v' where e: "e = (k', v')" by (cases e)
  from Cons.prems have all: "\<forall>x \<in> set m. k' <s fst x" and srt: "sorted_wrt (<s) (map fst m)"
    by (auto simp: e)
  show ?case
  proof (cases "k <s k'")
    case True
    then have "\<forall>x \<in> set m. k <s fst x" using all by (meson signed.less_trans)
    then have "k \<notin> fst ` set m" by auto
    with True show ?thesis unfolding e snd_emplace_Cons by auto
  next
    case False
    then show ?thesis unfolding e snd_emplace_Cons using Cons.IH[OF srt] by auto
  qed
qed

lemma emplace_set:
  "k \<notin> fst ` set m \<Longrightarrow> set (fst (emplace k v m)) = insert (k, v) (set m)"
proof (induction m)
  case Nil
  then show ?case by simp
next
  case (Cons e m)
  obtain k' v' where e: "e = (k', v')" by (cases e)
  from Cons.prems have neq: "k \<noteq> k'" and notin: "k \<notin> fst ` set m" by (auto simp: e)
  have IH: "set (fst (emplace k v m)) = insert (k, v) (set m)" by (rule Cons.IH[OF notin])
  show ?case unfolding e fst_emplace_Cons by (auto simp: IH neq)
qed

lemma emplace_keys:
  "k \<notin> fst ` set m \<Longrightarrow> set (map fst (fst (emplace k v m))) = insert k (fst ` set m)"
  by (simp add: emplace_set)

lemma emplace_sorted:
  "sorted_wrt (<s) (map fst m) \<Longrightarrow> k \<notin> fst ` set m \<Longrightarrow>
   sorted_wrt (<s) (map fst (fst (emplace k v m)))"
proof (induction m)
  case Nil
  then show ?case by simp
next
  case (Cons e m)
  obtain k' v' where e: "e = (k', v')" by (cases e)
  from Cons.prems have neq: "k \<noteq> k'" and notin: "k \<notin> fst ` set m"
    and srt: "sorted_wrt (<s) (map fst m)" and all: "\<forall>x \<in> set m. k' <s fst x"
    by (auto simp: e)
  show ?case
  proof (cases "k <s k'")
    case True
    then have "\<forall>x \<in> set m. k <s fst x" using all by (meson signed.less_trans)
    with True show ?thesis using Cons.prems neq by (simp add: e)
  next
    case False
    with neq have lt: "k' <s k" by (meson signed.not_less_iff_gr_or_eq)
    have IH: "sorted_wrt (<s) (map fst (fst (emplace k v m)))"
      using Cons.IH srt notin by simp
    have "\<forall>x \<in> set (fst (emplace k v m)). k' <s fst x"
      using all lt by (auto simp: emplace_set[OF notin])
    with False neq IH show ?thesis by (simp add: e)
  qed
qed

lemma filter_absent_key:
  "k \<notin> fst ` set m \<Longrightarrow> filter (\<lambda>e. fst e \<noteq> k) m = m"
  by (induction m) auto

lemma erase_emplace:
  "k \<notin> fst ` set m \<Longrightarrow> filter (\<lambda>e. fst e \<noteq> k) (fst (emplace k v m)) = m"
proof (induction m)
  case Nil
  then show ?case by simp
next
  case (Cons e m)
  then show ?case by (cases e) (auto simp: filter_absent_key)
qed

lemma count_emplace:
  "k \<notin> fst ` set m \<Longrightarrow> length (filter (\<lambda>e. fst e = k) (fst (emplace k v m))) = 1"
proof (induction m)
  case Nil
  then show ?case by simp
next
  case (Cons e m)
  then show ?case by (cases e) (auto simp: filter_empty_conv image_iff)
qed

lemma sorted_keys_count:
  "sorted_wrt (<s) (map fst m) \<Longrightarrow> (k, v) \<in> set m \<Longrightarrow>
   length (filter (\<lambda>e. fst e = k) m) = 1"
proof (induction m)
  case Nil
  then show ?case by simp
next
  case (Cons e m)
  show ?case
  proof (cases "fst e = k")
    case True
    with Cons.prems(1) have "\<forall>x \<in> set m. fst x \<noteq> k" by auto
    then have "filter (\<lambda>e. fst e = k) m = []" by (simp add: filter_empty_conv)
    with True show ?thesis by simp
  next
    case False
    with Cons show ?thesis by auto
  qed
qed

lemma sorted_filter_keys:
  "sorted_wrt (<s) (map fst m) \<Longrightarrow> sorted_wrt (<s) (map fst (filter P m))"
  by (induction m) auto

subsection \<open>What the operations return\<close>

lemma store_Timestamp_other_fields:
  "time (store_Timestamp t r s) = time s"
  "curr_running_txns (store_Timestamp t r s) = curr_running_txns s"
  "completed_txns (store_Timestamp t r s) = completed_txns s"
  "gc_enabled (store_Timestamp t r s) = gc_enabled s"
  "contexts (store_Timestamp t r s) = contexts s"
  "next_context (store_Timestamp t r s) = next_context s"
  "next_record (store_Timestamp t r s) = next_record s"
  "tables (store_Timestamp t r s) = tables s"
  by (simp_all add: store_Timestamp_def)

lemma fold_store_Timestamp_other_fields:
  "time (fold (store_Timestamp t) undos s) = time s"
  "curr_running_txns (fold (store_Timestamp t) undos s) = curr_running_txns s"
  "completed_txns (fold (store_Timestamp t) undos s) = completed_txns s"
  "gc_enabled (fold (store_Timestamp t) undos s) = gc_enabled s"
  "contexts (fold (store_Timestamp t) undos s) = contexts s"
  "next_context (fold (store_Timestamp t) undos s) = next_context s"
  "next_record (fold (store_Timestamp t) undos s) = next_record s"
  "tables (fold (store_Timestamp t) undos s) = tables s"
  by (induction undos arbitrary: s; simp add: store_Timestamp_other_fields)+

lemma fold_store_Timestamp_records:
  "undo_records (fold (store_Timestamp t) undos s) r =
     (if r \<in> set undos then (undo_records s r)\<lparr>Timestamp := t\<rparr> else undo_records s r)"
proof (induction undos arbitrary: s)
  case Nil
  then show ?case by simp
next
  case (Cons a undos)
  show ?case by (simp add: Cons.IH) (simp add: store_Timestamp_def)
qed

lemma registered_count:
  assumes "running_ok s" and "(StartTime (contexts s txn), txn) \<in> set (curr_running_txns s)"
  shows "length (filter (\<lambda>e. fst e = StartTime (contexts s txn)) (curr_running_txns s)) = 1"
  using assms sorted_keys_count by (auto simp: running_ok_def)

lemma BeginTransaction_Inr:
  assumes "BeginTransaction s = Inr (txn, s')"
  shows "txn = next_context s"
    and "time s' = time s + 1"
    and "StartTime (contexts s' txn) = time s"
    and "TxnId (contexts s' txn) = time s + INT64_MIN"
    and "UndoBuffer (contexts s' txn) = []"
    and "completed_txns s' = completed_txns s"
    and "gc_enabled s' = gc_enabled s"
    and "tables s' = tables s"
    and "undo_records s' = undo_records s"
    and "next_record s' = next_record s"
    and "next_context s' = Suc (next_context s)"
    and "curr_running_txns s' = fst (emplace (time s) (next_context s) (curr_running_txns s))"
    and "snd (emplace (time s) (next_context s) (curr_running_txns s))"
    and "contexts s' = (contexts s)(next_context s := new_TransactionContext (time s) (time s + INT64_MIN))"
  using assms
  by (auto simp: BeginTransaction_def Let_def new_TransactionContext_def split: if_splits)

lemma BeginTransaction_succeeds:
  assumes "running_ok s" and "time s \<notin> fst ` set (curr_running_txns s)"
  shows "\<exists>s'. BeginTransaction s = Inr (next_context s, s')"
proof -
  have "snd (emplace (time s) (next_context s) (curr_running_txns s))"
    using assms emplace_snd by (auto simp: running_ok_def)
  then show ?thesis
    by (simp add: BeginTransaction_def Let_def new_TransactionContext_def)
qed

lemma Commit_Inr:
  assumes "Commit txn s = Inr (c, s')"
  shows "c = time s"
    and "time s' = time s + 1"
    and "gc_enabled s' = gc_enabled s"
    and "completed_txns s' = (if gc_enabled s then completed_txns s @ [txn] else completed_txns s)"
    and "tables s' = tables s"
    and "next_context s' = next_context s"
    and "curr_running_txns s' = filter (\<lambda>e. fst e \<noteq> StartTime (contexts s txn)) (curr_running_txns s)"
    and "StartTime (contexts s' p) = StartTime (contexts s p)"
  using assms
  by (auto simp: Commit_def Let_def erase_def fold_store_Timestamp_other_fields split: if_splits)

lemma Abort_Inr:
  assumes "Abort txn s = Inr s'"
  shows "time s' = time s"
    and "gc_enabled s' = gc_enabled s"
    and "completed_txns s' = (if gc_enabled s then completed_txns s @ [txn] else completed_txns s)"
    and "next_context s' = next_context s"
    and "curr_running_txns s' = filter (\<lambda>e. fst e \<noteq> StartTime (contexts s txn)) (curr_running_txns s)"
    and "contexts s' = contexts s"
    and "undo_records s' = undo_records s"
  using assms
  by (auto simp: Abort_def Let_def erase_def fold_Rollback_other_fields split: if_splits)

lemma step_Inr:
  assumes "step c s = Inr (ts, s')"
  shows "ts = (if c = Begin \<or> (\<exists>txn. c = CommitOp txn) then [time s] else [])"
    and "time s' = time s + of_nat (length ts)"
    and "gc_enabled s' = gc_enabled s"
    and "c \<noteq> TakeCompletedOp \<Longrightarrow>
         completed_txns s' = completed_txns s @ (if gc_enabled s then completed_by [c] else [])"
proof -
  show "ts = (if c = Begin \<or> (\<exists>txn. c = CommitOp txn) then [time s] else [])"
    using assms
    by (cases c) (auto split: sum.splits dest: BeginTransaction_Inr(3) Commit_Inr(1)
        simp: CompletedTransactionsForGC_def Let_def)
  show "time s' = time s + of_nat (length ts)"
    using assms
    by (cases c) (auto split: sum.splits dest: BeginTransaction_Inr(2) Commit_Inr(2) Abort_Inr(1)
        simp: CompletedTransactionsForGC_def Let_def)
  show "gc_enabled s' = gc_enabled s"
    using assms
    by (cases c) (auto split: sum.splits dest: BeginTransaction_Inr(7) Commit_Inr(3) Abort_Inr(2)
        simp: CompletedTransactionsForGC_def Let_def)
  show "c \<noteq> TakeCompletedOp \<Longrightarrow>
         completed_txns s' = completed_txns s @ (if gc_enabled s then completed_by [c] else [])"
    using assms
    by (cases c) (auto split: sum.splits dest: BeginTransaction_Inr(6) Commit_Inr(4) Abort_Inr(3))
qed

lemma run_timestamps:
  "run cs s = Inr (ts, s') \<Longrightarrow>
   ts = map (\<lambda>i. time s + of_nat i) [0 ..< length ts] \<and> time s' = time s + of_nat (length ts)
   \<and> length ts \<le> length cs"
proof (induction cs arbitrary: s ts)
  case Nil
  then show ?case by simp
next
  case (Cons c cs)
  from Cons.prems obtain ts1 s1 ts2 where
    st: "step c s = Inr (ts1, s1)" and rn: "run cs s1 = Inr (ts2, s')" and ts: "ts = ts1 @ ts2"
    by (auto split: sum.splits)
  note IH = Cons.IH[OF rn]
  have t1: "time s1 = time s + of_nat (length ts1)" using step_Inr(2)[OF st] .
  have l1: "ts1 = [time s] \<or> ts1 = []" using step_Inr(1)[OF st] by (auto split: if_splits)
  have "ts = map (\<lambda>i. time s + of_nat i) [0 ..< length ts]"
  proof (cases "ts1 = []")
    case True
    then show ?thesis using IH t1 by (simp add: ts)
  next
    case False
    with l1 have ts1: "ts1 = [time s]" by simp
    have "ts2 = map (\<lambda>i. time s + of_nat (Suc i)) [0 ..< length ts2]"
      using IH t1 by (simp add: ts1 add.assoc)
    then have "time s # ts2 = map (\<lambda>i. time s + of_nat i) [0 ..< Suc (length ts2)]"
      unfolding map_upt_Suc by simp
    then show ?thesis by (simp add: ts ts1)
  qed
  moreover have "time s' = time s + of_nat (length ts)"
    using IH t1 by (simp add: ts)
  moreover have "length ts \<le> length (c # cs)"
    using IH l1 by (auto simp: ts)
  ultimately show ?case by blast
qed

lemma run_completed:
  "run cs s = Inr (ts, s') \<Longrightarrow> TakeCompletedOp \<notin> set cs \<Longrightarrow>
   gc_enabled s' = gc_enabled s \<and>
   completed_txns s' = completed_txns s @ (if gc_enabled s then completed_by cs else [])"
proof (induction cs arbitrary: s ts)
  case Nil
  then show ?case by simp
next
  case (Cons c cs)
  from Cons.prems obtain ts1 s1 ts2 where
    st: "step c s = Inr (ts1, s1)" and rn: "run cs s1 = Inr (ts2, s')"
    by (auto split: sum.splits)
  from Cons.prems have c: "c \<noteq> TakeCompletedOp" and cs: "TakeCompletedOp \<notin> set cs" by auto
  note IH = Cons.IH[OF rn cs]
  have g: "gc_enabled s1 = gc_enabled s" using step_Inr(3)[OF st] .
  have q: "completed_txns s1 = completed_txns s @ (if gc_enabled s then completed_by [c] else [])"
    using step_Inr(4)[OF st c] .
  have cb: "completed_by (c # cs) = completed_by [c] @ completed_by cs"
    by (cases c) simp_all
  show ?case using IH g q cb by simp
qed

subsection \<open>Abort slot by slot, and writes followed by an abort\<close>

lemma Abort_slot:
  assumes "owns_chain s txn table slot ps h0"
    and "running_ok s"
    and "(StartTime (contexts s txn), txn) \<in> set (curr_running_txns s)"
  shows "\<exists>s'. Abort txn s = Inr s'
      \<and> version_ptr (tables s' table) slot = h0
      \<and> attrs (tables s' table) slot
           = fold (\<lambda>p. copy_row (Delta (undo_records s p))) ps (attrs (tables s table) slot)"
proof -
  let ?s1 = "fold (Rollback (TxnId (contexts s txn))) (UndoBuffer (contexts s txn)) s"
  have cnt: "length (filter (\<lambda>e. fst e = StartTime (contexts s txn)) (curr_running_txns s)) = 1"
    using registered_count[OF assms(2,3)] .
  have slot: "version_ptr (tables ?s1 table) slot = h0
       \<and> attrs (tables ?s1 table) slot
           = fold (\<lambda>p. copy_row (Delta (undo_records s p))) ps (attrs (tables s table) slot)"
    using assms(1) unfolding owns_chain_def by (intro fold_Rollback_slot) simp_all
  show ?thesis
    using cnt slot
    by (simp add: Abort_def Let_def erase_def fold_Rollback_other_fields)
qed

lemma copy_row_outside:
  "c \<notin> fst ` set row \<Longrightarrow> copy_row row img c = img c"
  unfolding copy_row_def by (induction row arbitrary: img) auto

lemma copy_row_restore_gen:
  "(\<And>c. c \<notin> fst ` set row \<Longrightarrow> g c = img c) \<Longrightarrow>
   copy_row (map (\<lambda>e. (fst e, img (fst e))) row) g = img"
  unfolding copy_row_def
proof (induction row arbitrary: g)
  case Nil
  then show ?case by auto
next
  case (Cons e row)
  have "fold (\<lambda>e f. f(fst e := snd e)) (map (\<lambda>e. (fst e, img (fst e))) row)
          (g(fst e := img (fst e))) = img"
  proof (rule Cons.IH)
    fix c assume "c \<notin> fst ` set row"
    then show "(g(fst e := img (fst e))) c = img c" using Cons.prems[of c] by auto
  qed
  then show ?case by (simp del: fun_upd_apply)
qed

lemma copy_row_restore:
  "copy_row (map (\<lambda>e. (fst e, img (fst e))) row) (copy_row row img) = img"
  by (rule copy_row_restore_gen) (rule copy_row_outside)

lemma Update_other_fields:
  "time (Update txn table slot redo s) = time s"
  "curr_running_txns (Update txn table slot redo s) = curr_running_txns s"
  "completed_txns (Update txn table slot redo s) = completed_txns s"
  "gc_enabled (Update txn table slot redo s) = gc_enabled s"
  "next_context (Update txn table slot redo s) = next_context s"
  "next_record (Update txn table slot redo s) = Suc (next_record s)"
  by (simp_all add: Update_def Let_def copy_loop AtomicallyWriteVersionPtr_def)

lemma Update_records:
  "undo_records (Update txn table slot redo s) =
     (undo_records s)(next_record s :=
        \<lparr>Timestamp = TxnId (contexts s txn), Table = table, Slot = slot,
         Delta = map (\<lambda>e. (fst e, attrs (tables s table) slot (fst e))) redo,
         Next = version_ptr (tables s table) slot\<rparr>)"
  by (simp add: Update_def Let_def copy_loop AtomicallyWriteVersionPtr_def
      AtomicallyReadVersionPtr_def)

lemma Update_contexts:
  "contexts (Update txn table slot redo s) =
     (contexts s)(txn := (contexts s txn)\<lparr>UndoBuffer := UndoBuffer (contexts s txn) @ [next_record s]\<rparr>)"
  by (simp add: Update_def Let_def copy_loop AtomicallyWriteVersionPtr_def)

lemma Update_version_ptr:
  "version_ptr (tables (Update txn table slot redo s) table') slot' =
     (if table' = table \<and> slot' = slot then Some (next_record s)
      else version_ptr (tables s table') slot')"
  by (simp add: Update_def Let_def copy_loop AtomicallyWriteVersionPtr_def)

lemma Update_attrs:
  "attrs (tables (Update txn table slot redo s) table') slot' =
     (if table' = table \<and> slot' = slot then copy_row redo (attrs (tables s table) slot)
      else attrs (tables s table') slot')"
  by (simp add: Update_def Let_def copy_loop AtomicallyWriteVersionPtr_def)

lemma linked_cong:
  "(\<And>p. p \<in> set ps \<Longrightarrow> recs' p = recs p) \<Longrightarrow> linked recs' h ps h0 = linked recs h ps h0"
  by (induction ps arbitrary: h) auto

lemma fold_copy_cong:
  "(\<And>p. p \<in> set ps \<Longrightarrow> recs' p = recs p) \<Longrightarrow>
   fold (\<lambda>p. copy_row (Delta (recs' p))) ps img = fold (\<lambda>p. copy_row (Delta (recs p))) ps img"
  by (induction ps arbitrary: img) auto

lemma records_for_cong:
  "(\<And>r. r \<in> set undos \<Longrightarrow> undo_records s' r = undo_records s r) \<Longrightarrow>
   records_for s' table slot undos = records_for s table slot undos"
  unfolding records_for_def by (rule filter_cong) auto

lemma Update_old_records:
  "p < next_record s \<Longrightarrow> undo_records (Update u table' slot' redo s) p = undo_records s p"
  by (simp add: Update_records)

lemma slot_inv_Update_same:
  assumes inv: "slot_inv s0 s txn table slot ps"
  shows "slot_inv s0 (Update txn table slot redo s) txn table slot (next_record s # ps)"
proof -
  let ?s' = "Update txn table slot redo s"
  let ?r = "next_record s"
  let ?h0 = "version_ptr (tables s0 table) slot"
  from inv have lk: "linked (undo_records s) (version_ptr (tables s table) slot) ps ?h0"
    and len: "length ps = length (records_for s table slot (UndoBuffer (contexts s txn)))"
    and ts: "\<forall>p \<in> set ps. Timestamp (undo_records s p) = TxnId (contexts s txn)"
    and pseq: "ps = rev (records_for s table slot (UndoBuffer (contexts s txn)))"
    and bufb: "\<forall>r \<in> set (UndoBuffer (contexts s txn)). r < ?r"
    and img: "fold (\<lambda>p. copy_row (Delta (undo_records s p))) ps (attrs (tables s table) slot)
        = attrs (tables s0 table) slot"
    unfolding slot_inv_def owns_chain_def by blast+
  have psb: "\<forall>p \<in> set ps. p < ?r"
    using bufb unfolding pseq records_for_def by auto
  have old: "\<And>p. p \<in> set ps \<Longrightarrow> undo_records ?s' p = undo_records s p"
    using psb by (simp add: Update_old_records)
  have oldb: "\<And>r. r \<in> set (UndoBuffer (contexts s txn)) \<Longrightarrow> undo_records ?s' r = undo_records s r"
    using bufb by (simp add: Update_old_records)
  have new: "undo_records ?s' ?r =
        \<lparr>Timestamp = TxnId (contexts s txn), Table = table, Slot = slot,
         Delta = map (\<lambda>e. (fst e, attrs (tables s table) slot (fst e))) redo,
         Next = version_ptr (tables s table) slot\<rparr>"
    by (simp add: Update_records)
  have buf: "UndoBuffer (contexts ?s' txn) = UndoBuffer (contexts s txn) @ [?r]"
    and tid: "TxnId (contexts ?s' txn) = TxnId (contexts s txn)"
    by (simp_all add: Update_contexts)
  have 1: "linked (undo_records ?s') (version_ptr (tables ?s' table) slot) (?r # ps) ?h0"
    using lk by (simp add: Update_version_ptr new linked_cong[OF old])
  have rf: "records_for ?s' table slot (UndoBuffer (contexts s txn))
      = records_for s table slot (UndoBuffer (contexts s txn))"
    by (rule records_for_cong) (rule oldb)
  have 2: "length (?r # ps) = length (records_for ?s' table slot (UndoBuffer (contexts ?s' txn)))"
    unfolding buf using len rf by (simp add: records_for_def new)
  have 3: "\<forall>p \<in> set (?r # ps). Timestamp (undo_records ?s' p) = TxnId (contexts ?s' txn)"
    using ts old by (simp add: tid new)
  have 4: "?r # ps = rev (records_for ?s' table slot (UndoBuffer (contexts ?s' txn)))"
    unfolding buf using pseq rf by (simp add: records_for_def new)
  have 5: "\<forall>r \<in> set (UndoBuffer (contexts ?s' txn)). r < next_record ?s'"
    unfolding buf using bufb by (auto simp: Update_other_fields)
  have 6: "fold (\<lambda>p. copy_row (Delta (undo_records ?s' p))) (?r # ps) (attrs (tables ?s' table) slot)
        = attrs (tables s0 table) slot"
    using img by (simp add: Update_attrs new copy_row_restore fold_copy_cong[OF old])
  show ?thesis
    unfolding slot_inv_def owns_chain_def using 1 2 3 4 5 6 by blast
qed

lemma slot_inv_Update_other:
  assumes inv: "slot_inv s0 s txn table slot ps"
    and other: "table' \<noteq> table \<or> slot' \<noteq> slot"
  shows "slot_inv s0 (Update u table' slot' redo s) txn table slot ps"
proof -
  let ?s' = "Update u table' slot' redo s"
  let ?r = "next_record s"
  let ?h0 = "version_ptr (tables s0 table) slot"
  from inv have lk: "linked (undo_records s) (version_ptr (tables s table) slot) ps ?h0"
    and len: "length ps = length (records_for s table slot (UndoBuffer (contexts s txn)))"
    and ts: "\<forall>p \<in> set ps. Timestamp (undo_records s p) = TxnId (contexts s txn)"
    and pseq: "ps = rev (records_for s table slot (UndoBuffer (contexts s txn)))"
    and bufb: "\<forall>r \<in> set (UndoBuffer (contexts s txn)). r < ?r"
    and img: "fold (\<lambda>p. copy_row (Delta (undo_records s p))) ps (attrs (tables s table) slot)
        = attrs (tables s0 table) slot"
    unfolding slot_inv_def owns_chain_def by blast+
  have psb: "\<forall>p \<in> set ps. p < ?r"
    using bufb unfolding pseq records_for_def by auto
  have old: "\<And>p. p \<in> set ps \<Longrightarrow> undo_records ?s' p = undo_records s p"
    using psb by (simp add: Update_old_records)
  have oldb: "\<And>r. r \<in> set (UndoBuffer (contexts s txn)) \<Longrightarrow> undo_records ?s' r = undo_records s r"
    using bufb by (simp add: Update_old_records)
  have newkey: "\<not> (Table (undo_records ?s' ?r) = table \<and> Slot (undo_records ?s' ?r) = slot)"
    using other by (auto simp: Update_records)
  have tid: "TxnId (contexts ?s' txn) = TxnId (contexts s txn)"
    by (simp add: Update_contexts)
  have buf: "UndoBuffer (contexts ?s' txn) =
      (if u = txn then UndoBuffer (contexts s txn) @ [?r] else UndoBuffer (contexts s txn))"
    by (simp add: Update_contexts)
  have vp: "version_ptr (tables ?s' table) slot = version_ptr (tables s table) slot"
    and at: "attrs (tables ?s' table) slot = attrs (tables s table) slot"
    using other by (auto simp: Update_version_ptr Update_attrs)
  have 1: "linked (undo_records ?s') (version_ptr (tables ?s' table) slot) ps ?h0"
    using lk by (simp add: vp linked_cong[OF old])
  have rf: "records_for ?s' table slot (UndoBuffer (contexts s txn))
      = records_for s table slot (UndoBuffer (contexts s txn))"
    by (rule records_for_cong) (rule oldb)
  have rf': "records_for ?s' table slot (UndoBuffer (contexts ?s' txn))
      = records_for s table slot (UndoBuffer (contexts s txn))"
    unfolding buf using rf newkey by (auto simp: records_for_def)
  have 2: "length ps = length (records_for ?s' table slot (UndoBuffer (contexts ?s' txn)))"
    using len rf' by simp
  have 3: "\<forall>p \<in> set ps. Timestamp (undo_records ?s' p) = TxnId (contexts ?s' txn)"
    using ts old by (simp add: tid)
  have 4: "ps = rev (records_for ?s' table slot (UndoBuffer (contexts ?s' txn)))"
    using pseq rf' by simp
  have 5: "\<forall>r \<in> set (UndoBuffer (contexts ?s' txn)). r < next_record ?s'"
    unfolding buf using bufb by (auto simp: Update_other_fields)
  have 6: "fold (\<lambda>p. copy_row (Delta (undo_records ?s' p))) ps (attrs (tables ?s' table) slot)
        = attrs (tables s0 table) slot"
    using img by (simp add: at fold_copy_cong[OF old])
  show ?thesis
    unfolding slot_inv_def owns_chain_def using 1 2 3 4 5 6 by blast
qed

lemma writes_snoc:
  "writes (ws @ [w]) s = Update (fst w) (fst (snd w)) (fst (snd (snd w))) (snd (snd (snd w))) (writes ws s)"
  by (simp add: writes_def)

lemma slot_inv_writes:
  assumes "records_for s0 table slot (UndoBuffer (contexts s0 txn)) = []"
    and "\<forall>r \<in> set (UndoBuffer (contexts s0 txn)). r < next_record s0"
    and "\<forall>w \<in> set ws. fst w \<noteq> txn \<longrightarrow> (fst (snd w) \<noteq> table \<or> fst (snd (snd w)) \<noteq> slot)"
  shows "\<exists>ps. slot_inv s0 (writes ws s0) txn table slot ps
      \<and> ((\<exists>redo. (txn, table, slot, redo) \<in> set ws) \<longrightarrow> ps \<noteq> [])"
  using assms(3)
proof (induction ws rule: rev_induct)
  case Nil
  have "slot_inv s0 s0 txn table slot []"
    using assms(1,2) by (simp add: slot_inv_def owns_chain_def)
  then show ?case by (auto simp: writes_def)
next
  case (snoc w ws)
  then obtain ps where inv: "slot_inv s0 (writes ws s0) txn table slot ps"
    and ne: "(\<exists>redo. (txn, table, slot, redo) \<in> set ws) \<longrightarrow> ps \<noteq> []" by auto
  obtain u tb sl redo where w: "w = (u, tb, sl, redo)" by (cases w) auto
  show ?case
  proof (cases "tb = table \<and> sl = slot")
    case True
    with snoc.prems have "u = txn" by (auto simp: w)
    with True have "slot_inv s0 (writes (ws @ [w]) s0) txn table slot (next_record (writes ws s0) # ps)"
      using slot_inv_Update_same[OF inv] by (simp add: writes_snoc w)
    then show ?thesis by blast
  next
    case False
    then have "slot_inv s0 (writes (ws @ [w]) s0) txn table slot ps"
      using slot_inv_Update_other[OF inv, of tb sl] by (auto simp: writes_snoc w)
    moreover have "(\<exists>redo. (txn, table, slot, redo) \<in> set (ws @ [w])) \<longrightarrow> ps \<noteq> []"
      using ne False by (auto simp: w)
    ultimately show ?thesis by blast
  qed
qed

lemma slot_inv_head:
  assumes "slot_inv s0 s txn table slot ps" and "ps \<noteq> []"
  shows "\<exists>p. version_ptr (tables s table) slot = Some p
      \<and> Timestamp (undo_records s p) = TxnId (contexts s txn)"
proof -
  from assms(2) obtain p ps' where ps: "ps = p # ps'" by (cases ps) auto
  from assms(1) have "linked (undo_records s) (version_ptr (tables s table) slot) ps
        (version_ptr (tables s0 table) slot)"
    and "\<forall>q \<in> set ps. Timestamp (undo_records s q) = TxnId (contexts s txn)"
    unfolding slot_inv_def owns_chain_def by blast+
  then show ?thesis by (simp add: ps)
qed

lemma writes_curr_running_txns: "curr_running_txns (writes ws s) = curr_running_txns s"
  by (induction ws rule: rev_induct) (simp_all add: writes_snoc Update_other_fields, simp add: writes_def)

lemma writes_StartTime: "StartTime (contexts (writes ws s) txn) = StartTime (contexts s txn)"
proof (induction ws rule: rev_induct)
  case Nil
  then show ?case by (simp add: writes_def)
next
  case (snoc w ws)
  then show ?case by (cases "txn = fst w") (simp_all add: writes_snoc Update_contexts)
qed

lemma writes_next_context: "next_context (writes ws s) = next_context s"
  by (induction ws rule: rev_induct) (simp_all add: writes_snoc Update_other_fields, simp add: writes_def)

lemmas writes_preserve = writes_curr_running_txns writes_StartTime writes_next_context

lemma running_ok_writes: "running_ok (writes ws s) = running_ok s"
  by (simp add: running_ok_def writes_preserve)

subsection \<open>Timestamps in signed order, runs, and the invariant of the running table\<close>

lemma sint_add_nat:
  fixes t :: timestamp_t
  assumes "sint t + int i < 2 ^ 63"
  shows "sint (t + of_nat i) = sint t + int i"
proof -
  have lo: "- (2 ^ 63) \<le> sint t" using sint_ge[of t] by simp
  have "t + of_nat i = word_of_int (sint t + int i)" by simp
  then have "sint (t + of_nat i) = signed_take_bit 63 (sint t + int i)"
    by (simp only: sint_sbintrunc') simp
  also have "\<dots> = sint t + int i"
    using lo assms by (intro signed_take_bit_int_eq_self) auto
  finally show ?thesis .
qed

lemma sless_add_nat:
  fixes t :: timestamp_t
  assumes "i < j" and "sint t + int j < 2 ^ 63"
  shows "t + of_nat i <s t + of_nat j"
  using assms by (simp add: word_sless_alt sint_add_nat)

lemma sle_add_nat:
  fixes t :: timestamp_t
  assumes "sint t + int j < 2 ^ 63"
  shows "t <=s t + of_nat j"
  using assms by (simp add: word_sle_eq sint_add_nat)

lemma sorted_draws:
  fixes t :: timestamp_t
  assumes "sint t + int n < 2 ^ 63"
  shows "sorted_wrt (<s) (map (\<lambda>i. t + of_nat i) [0 ..< n])"
  unfolding sorted_wrt_map
  by (rule sorted_wrt_mono_rel[where P = "(<)"])
     (use assms in \<open>auto intro!: sless_add_nat simp: sorted_wrt_upt\<close>)

lemma running_ok_fresh: "running_ok (fresh_manager t0 gc tabs)"
  by (simp add: running_ok_def fresh_manager_def)

lemma running_ok_BeginTransaction:
  assumes "running_ok s" and "BeginTransaction s = Inr (txn, s')"
  shows "running_ok s'"
proof -
  note b = BeginTransaction_Inr[OF assms(2)]
  from assms(1) have srt: "sorted_wrt (<s) (map fst (curr_running_txns s))"
    and all: "\<forall>e \<in> set (curr_running_txns s). StartTime (contexts s (snd e)) = fst e \<and> snd e < next_context s"
    by (simp_all add: running_ok_def list_all_iff)
  have notin: "time s \<notin> fst ` set (curr_running_txns s)"
    using b(13) emplace_snd[OF srt] by simp
  have 1: "sorted_wrt (<s) (map fst (curr_running_txns s'))"
    unfolding b(12) by (rule emplace_sorted[OF srt notin])
  have 2: "\<forall>e \<in> set (curr_running_txns s'). StartTime (contexts s' (snd e)) = fst e \<and> snd e < next_context s'"
    unfolding b(12) emplace_set[OF notin] b(14) b(11)
    using all by (auto simp: new_TransactionContext_def)
  show ?thesis using 1 2 by (simp add: running_ok_def list_all_iff)
qed

lemma running_ok_Commit:
  assumes "running_ok s" and "Commit txn s = Inr (c, s')"
  shows "running_ok s'"
  using assms(1) Commit_Inr(6,7,8)[OF assms(2)]
  by (auto simp: running_ok_def list_all_iff sorted_filter_keys)

lemma running_ok_Abort:
  assumes "running_ok s" and "Abort txn s = Inr s'"
  shows "running_ok s'"
  using assms(1) Abort_Inr(4,5,6)[OF assms(2)]
  by (auto simp: running_ok_def list_all_iff sorted_filter_keys)

lemma Rollback_same_slot:
  assumes "Table (undo_records s r1) = Table (undo_records s r2)"
    and "Slot (undo_records s r1) = Slot (undo_records s r2)"
  shows "Rollback txn_id r1 s = Rollback txn_id r2 s"
  unfolding Rollback_def assms ..

lemma running_ok_step:
  assumes "running_ok s" and "step c s = Inr (ts, s')"
  shows "running_ok s'"
proof (cases c)
  case Begin
  with assms show ?thesis
    by (auto split: sum.splits intro: running_ok_BeginTransaction)
next
  case (CommitOp txn)
  with assms show ?thesis
    by (auto split: sum.splits intro: running_ok_Commit)
next
  case (AbortOp txn)
  with assms show ?thesis
    by (auto split: sum.splits intro: running_ok_Abort)
next
  case OldestOp
  with assms show ?thesis by simp
next
  case TakeCompletedOp
  with assms show ?thesis
    by (auto simp: CompletedTransactionsForGC_def Let_def running_ok_def)
qed

lemma running_ok_run:
  "running_ok s \<Longrightarrow> run cs s = Inr (ts, s') \<Longrightarrow> running_ok s'"
proof (induction cs arbitrary: s ts)
  case Nil
  then show ?case by simp
next
  case (Cons c cs)
  from Cons.prems(2) obtain ts1 s1 ts2 where
    st: "step c s = Inr (ts1, s1)" and rn: "run cs s1 = Inr (ts2, s')"
    by (auto split: sum.splits)
  from running_ok_step[OF Cons.prems(1) st] rn show ?case by (rule Cons.IH)
qed

lemma BeginTransaction_registers:
  assumes "running_ok s" and "BeginTransaction s = Inr (txn, s')"
  shows "(StartTime (contexts s' txn), txn) \<in> set (curr_running_txns s')"
proof -
  note b = BeginTransaction_Inr[OF assms(2)]
  from assms(1) have srt: "sorted_wrt (<s) (map fst (curr_running_txns s))"
    by (simp add: running_ok_def)
  have notin: "time s \<notin> fst ` set (curr_running_txns s)"
    using b(13) emplace_snd[OF srt] by simp
  have "(time s, next_context s) \<in> set (curr_running_txns s')"
    unfolding b(12) emplace_set[OF notin] by simp
  then show ?thesis using b(1) b(3) by simp
qed

subsection \<open>The concrete states evaluated\<close>

lemma Begin_demo_fresh: "BeginTransaction demo_fresh = Inr (0, demo_begun)"
  by (simp add: demo_begun_def demo_fresh_def fresh_manager_def BeginTransaction_def Let_def)

lemma demo_begun_fields:
  "time demo_begun = 2"
  "curr_running_txns demo_begun = [(1, 0)]"
  "completed_txns demo_begun = []"
  "gc_enabled demo_begun"
  "contexts demo_begun 0 = \<lparr>StartTime = 1, TxnId = 1 + INT64_MIN, UndoBuffer = []\<rparr>"
  "next_context demo_begun = 1"
  "next_record demo_begun = 0"
  "tables demo_begun = demo_tables"
  by (simp_all add: demo_begun_def demo_fresh_def fresh_manager_def BeginTransaction_def Let_def
      new_TransactionContext_def)

lemma demo_written_once_fields:
  "time demo_written_once = 2"
  "curr_running_txns demo_written_once = [(1, 0)]"
  "completed_txns demo_written_once = []"
  "gc_enabled demo_written_once"
  "contexts demo_written_once 0 = \<lparr>StartTime = 1, TxnId = 1 + INT64_MIN, UndoBuffer = [0]\<rparr>"
  "next_context demo_written_once = 1"
  "next_record demo_written_once = 1"
  "undo_records demo_written_once 0 =
     \<lparr>Timestamp = 1 + INT64_MIN, Table = 0, Slot = 0, Delta = [(0, 10)], Next = None\<rparr>"
  "version_ptr (tables demo_written_once 0) 0 = Some 0"
  "attrs (tables demo_written_once 0) 0 0 = 99"
  by (simp_all add: demo_written_once_def Update_other_fields Update_records Update_contexts
      Update_version_ptr Update_attrs demo_begun_fields demo_tables_def copy_row_def)

lemma running_ok_demo_written_once: "running_ok demo_written_once"
  by (simp add: running_ok_def demo_written_once_fields)

lemma demo_written_twice_eq:
  "demo_written_twice = Update 0 0 0 [(0, 77)] demo_written_once"
  by (simp add: demo_written_twice_def demo_written_once_def writes_def)

lemma demo_written_twice_fields:
  "time demo_written_twice = 2"
  "curr_running_txns demo_written_twice = [(1, 0)]"
  "completed_txns demo_written_twice = []"
  "gc_enabled demo_written_twice"
  "contexts demo_written_twice 0 = \<lparr>StartTime = 1, TxnId = 1 + INT64_MIN, UndoBuffer = [0, 1]\<rparr>"
  "next_context demo_written_twice = 1"
  "next_record demo_written_twice = 2"
  "undo_records demo_written_twice 0 =
     \<lparr>Timestamp = 1 + INT64_MIN, Table = 0, Slot = 0, Delta = [(0, 10)], Next = None\<rparr>"
  "undo_records demo_written_twice (Suc 0) =
     \<lparr>Timestamp = 1 + INT64_MIN, Table = 0, Slot = 0, Delta = [(0, 99)], Next = Some 0\<rparr>"
  "version_ptr (tables demo_written_twice 0) 0 = Some 1"
  "attrs (tables demo_written_twice 0) 0 0 = 77"
  by (simp_all add: demo_written_twice_eq Update_other_fields Update_records Update_contexts
      Update_version_ptr Update_attrs demo_written_once_fields copy_row_def)

lemma running_ok_demo_written_twice: "running_ok demo_written_twice"
  by (simp add: running_ok_def demo_written_twice_fields)

lemma running_ok_demo_begun: "running_ok demo_begun"
  by (simp add: running_ok_def demo_begun_fields)

lemma Begin_demo_begun: "BeginTransaction demo_begun = Inr (1, demo_two_running)"
  by (simp add: demo_two_running_def demo_begun_def demo_fresh_def fresh_manager_def
      BeginTransaction_def Let_def new_TransactionContext_def word_sless_alt)

lemma demo_two_running_fields:
  "time demo_two_running = 3"
  "curr_running_txns demo_two_running = [(1, 0), (2, 1)]"
  "contexts demo_two_running 0 = \<lparr>StartTime = 1, TxnId = 1 + INT64_MIN, UndoBuffer = []\<rparr>"
  "contexts demo_two_running (Suc 0) = \<lparr>StartTime = 2, TxnId = 2 + INT64_MIN, UndoBuffer = []\<rparr>"
  "next_context demo_two_running = 2"
  by (simp_all add: demo_two_running_def demo_begun_def demo_fresh_def fresh_manager_def
      BeginTransaction_def Let_def new_TransactionContext_def word_sless_alt)

lemma Commit_demo_begun: "Commit 0 demo_begun = Inr (2, demo_committed)"
  by (simp add: demo_committed_def demo_begun_def demo_fresh_def fresh_manager_def
      BeginTransaction_def Commit_def erase_def Let_def new_TransactionContext_def)

lemma Begin_demo_committed: "BeginTransaction demo_committed = Inr (1, demo_begun_again)"
  by (simp add: demo_begun_again_def demo_committed_def demo_begun_def demo_fresh_def
      fresh_manager_def BeginTransaction_def Commit_def erase_def Let_def new_TransactionContext_def)

lemma demo_begun_again_fields:
  "time demo_begun_again = 4"
  "contexts demo_begun_again (Suc 0) = \<lparr>StartTime = 3, TxnId = 3 + INT64_MIN, UndoBuffer = []\<rparr>"
  by (simp_all add: demo_begun_again_def demo_committed_def demo_begun_def demo_fresh_def
      fresh_manager_def BeginTransaction_def Commit_def erase_def Let_def new_TransactionContext_def)

lemma run_demo: "run [Begin, CommitOp 0, Begin] demo_fresh = Inr ([1, 2, 3], demo_begun_again)"
  by (simp add: Begin_demo_fresh Commit_demo_begun Begin_demo_committed demo_begun_fields
      demo_begun_again_fields)

lemma horizon_scenario_demo:
  "horizon_scenario (fresh_manager 1 True demo_tables) = Inr (1, 2, 1, 2, 5)"
  "horizon_scenario (fresh_manager 0 True demo_tables) = Inr (0, 1, 0, 1, 4)"
  by (simp_all add: horizon_scenario_def fresh_manager_def BeginTransaction_def Commit_def Let_def
      new_TransactionContext_def erase_def OldestTransactionStartTime_def word_sless_alt)

lemma begin_then_abort_demo:
  "\<not> isl (begin_then_abort demo_fresh)"
  "time (projr (begin_then_abort demo_fresh)) = 2"
  by (simp_all add: begin_then_abort_def Begin_demo_fresh Abort_def Let_def erase_def demo_begun_fields)

lemma Rollback_demo_written_twice:
  "version_ptr (tables (Rollback (1 + INT64_MIN) 0 demo_written_twice) 0) 0 = Some 0"
  "attrs (tables (Rollback (1 + INT64_MIN) 0 demo_written_twice) 0) 0 0 = 99"
proof -
  have hd: "version_ptr (tables demo_written_twice (Table (undo_records demo_written_twice 0)))
      (Slot (undo_records demo_written_twice 0)) = Some 1"
    by (simp add: demo_written_twice_fields)
  have ts: "Timestamp (undo_records demo_written_twice 1) = 1 + INT64_MIN"
    by (simp add: demo_written_twice_fields)
  from Rollback_pop(1)[OF hd ts]
  show "version_ptr (tables (Rollback (1 + INT64_MIN) 0 demo_written_twice) 0) 0 = Some 0"
    by (simp add: demo_written_twice_fields)
  from Rollback_pop(2)[OF hd ts]
  show "attrs (tables (Rollback (1 + INT64_MIN) 0 demo_written_twice) 0) 0 0 = 99"
    by (simp add: demo_written_twice_fields copy_row_def)
qed

section \<open>The properties of the specification\<close>

text \<open>
  Claim C1. For a transaction that is registered in a well-formed running table, at a
  time when the timestamp source is non-negative, \<open>Commit\<close> succeeds and returns the
  value \<open>C\<close> that the timestamp source held, which is non-negative, and advances the
  source past it. Afterwards every record in the undo buffer of the transaction has
  timestamp word \<open>C\<close>, the id of the transaction is \<open>C\<close>, its start time is not a key of
  the running table, and, if GC is enabled, the transaction has been pushed at the back
  of the completed queue.
\<close>

theorem Commit_effect:
  assumes "running_ok s"
    and "(StartTime (contexts s txn), txn) \<in> set (curr_running_txns s)"
    and "0 <=s time s"
  shows "\<exists>s'. Commit txn s = Inr (time s, s')
      \<and> 0 <=s time s
      \<and> time s' = time s + 1
      \<and> UndoBuffer (contexts s' txn) = UndoBuffer (contexts s txn)
      \<and> (\<forall>r \<in> set (UndoBuffer (contexts s txn)). Timestamp (undo_records s' r) = time s)
      \<and> TxnId (contexts s' txn) = time s
      \<and> StartTime (contexts s' txn) = StartTime (contexts s txn)
      \<and> StartTime (contexts s' txn) \<notin> fst ` set (curr_running_txns s')
      \<and> (gc_enabled s \<longrightarrow> completed_txns s' = completed_txns s @ [txn])"
proof -
  have cnt: "length (filter (\<lambda>e. fst e = StartTime (contexts s txn)) (curr_running_txns s)) = 1"
    using registered_count[OF assms(1,2)] .
  show ?thesis
    using cnt assms(3)
    by (auto simp: Commit_def Let_def erase_def fold_store_Timestamp_other_fields
        fold_store_Timestamp_records)
qed

theorem Commit_effect_witness:
  "running_ok demo_written_once
   \<and> (StartTime (contexts demo_written_once 0), 0) \<in> set (curr_running_txns demo_written_once)
   \<and> 0 <=s time demo_written_once
   \<and> (\<exists>s'. Commit 0 demo_written_once = Inr (2, s')
         \<and> time s' = 3
         \<and> Timestamp (undo_records s' 0) = 2
         \<and> TxnId (contexts s' 0) = 2
         \<and> 1 \<notin> fst ` set (curr_running_txns s')
         \<and> completed_txns s' = [0])"
proof -
  have h1: "running_ok demo_written_once" by (rule running_ok_demo_written_once)
  have h2: "(StartTime (contexts demo_written_once 0), 0) \<in> set (curr_running_txns demo_written_once)"
    by (simp add: demo_written_once_fields)
  have h3: "0 <=s time demo_written_once"
    by (simp add: demo_written_once_fields word_sle_eq)
  from Commit_effect[OF h1 h2 h3] obtain s' where
    c: "Commit 0 demo_written_once = Inr (time demo_written_once, s')"
    and t: "time s' = time demo_written_once + 1"
    and r: "\<forall>r \<in> set (UndoBuffer (contexts demo_written_once 0)).
              Timestamp (undo_records s' r) = time demo_written_once"
    and i: "TxnId (contexts s' 0) = time demo_written_once"
    and st: "StartTime (contexts s' 0) = StartTime (contexts demo_written_once 0)"
    and k: "StartTime (contexts s' 0) \<notin> fst ` set (curr_running_txns s')"
    and q: "gc_enabled demo_written_once \<longrightarrow> completed_txns s' = completed_txns demo_written_once @ [0]"
    by blast
  have "Commit 0 demo_written_once = Inr (2, s')" using c by (simp add: demo_written_once_fields)
  moreover have "time s' = 3" using t by (simp add: demo_written_once_fields)
  moreover have "Timestamp (undo_records s' 0) = 2" using r by (simp add: demo_written_once_fields)
  moreover have "TxnId (contexts s' 0) = 2" using i by (simp add: demo_written_once_fields)
  moreover have "1 \<notin> fst ` set (curr_running_txns s')"
    using k unfolding st by (simp add: demo_written_once_fields)
  moreover have "completed_txns s' = [0]" using q by (simp add: demo_written_once_fields)
  ultimately show ?thesis using h1 h2 h3 by blast
qed

text \<open>
  Claim C2. Let \<open>s0\<close> be a state in which the transaction has no undo record for a slot
  yet (it is before its first write to the slot), and let any history of writes follow
  in which the transaction writes this and other slots any number of times and other
  transactions write other slots. If the transaction wrote the slot, the head of the
  chain of the slot then belongs to it. \<open>Abort\<close> succeeds, and afterwards the tuple image
  of the slot and the head of its version chain are what they were in \<open>s0\<close>.
\<close>

theorem Abort_restores_slot:
  assumes "records_for s0 table slot (UndoBuffer (contexts s0 txn)) = []"
    and "\<forall>r \<in> set (UndoBuffer (contexts s0 txn)). r < next_record s0"
    and "\<forall>w \<in> set ws. fst w \<noteq> txn \<longrightarrow> (fst (snd w) \<noteq> table \<or> fst (snd (snd w)) \<noteq> slot)"
    and "running_ok s0"
    and "(StartTime (contexts s0 txn), txn) \<in> set (curr_running_txns s0)"
  shows "((\<exists>redo. (txn, table, slot, redo) \<in> set ws) \<longrightarrow>
          (\<exists>p. version_ptr (tables (writes ws s0) table) slot = Some p
             \<and> Timestamp (undo_records (writes ws s0) p) = TxnId (contexts (writes ws s0) txn)))
      \<and> (\<exists>s2. Abort txn (writes ws s0) = Inr s2
          \<and> attrs (tables s2 table) slot = attrs (tables s0 table) slot
          \<and> version_ptr (tables s2 table) slot = version_ptr (tables s0 table) slot)"
proof -
  let ?s1 = "writes ws s0"
  obtain ps where inv: "slot_inv s0 ?s1 txn table slot ps"
    and ne: "(\<exists>redo. (txn, table, slot, redo) \<in> set ws) \<longrightarrow> ps \<noteq> []"
    using slot_inv_writes[OF assms(1,2,3)] by blast
  then have oc: "owns_chain ?s1 txn table slot ps (version_ptr (tables s0 table) slot)"
    and img: "fold (\<lambda>p. copy_row (Delta (undo_records ?s1 p))) ps (attrs (tables ?s1 table) slot)
        = attrs (tables s0 table) slot"
    unfolding slot_inv_def by blast+
  have ok: "running_ok ?s1" using assms(4) by (simp add: running_ok_writes)
  have reg: "(StartTime (contexts ?s1 txn), txn) \<in> set (curr_running_txns ?s1)"
    using assms(5) by (simp add: writes_preserve)
  from Abort_slot[OF oc ok reg] obtain s2 where
    a: "Abort txn ?s1 = Inr s2"
    and b: "version_ptr (tables s2 table) slot = version_ptr (tables s0 table) slot"
    and c: "attrs (tables s2 table) slot
        = fold (\<lambda>p. copy_row (Delta (undo_records ?s1 p))) ps (attrs (tables ?s1 table) slot)"
    by blast
  have 1: "\<exists>s2. Abort txn ?s1 = Inr s2
          \<and> attrs (tables s2 table) slot = attrs (tables s0 table) slot
          \<and> version_ptr (tables s2 table) slot = version_ptr (tables s0 table) slot"
    using a b c img by (intro exI[of _ s2]) simp
  have 2: "(\<exists>redo. (txn, table, slot, redo) \<in> set ws) \<longrightarrow>
          (\<exists>p. version_ptr (tables ?s1 table) slot = Some p
             \<and> Timestamp (undo_records ?s1 p) = TxnId (contexts ?s1 txn))"
    using ne slot_inv_head[OF inv] by blast
  from 1 2 show ?thesis by blast
qed

theorem Abort_restores_slot_witness:
  "records_for demo_begun 0 0 (UndoBuffer (contexts demo_begun 0)) = []
   \<and> UndoBuffer (contexts demo_begun 0) = []
   \<and> running_ok demo_begun
   \<and> (StartTime (contexts demo_begun 0), 0) \<in> set (curr_running_txns demo_begun)
   \<and> attrs (tables (writes [(0, 0, 0, [(0, 99)]), (7, 0, 1, [(0, 55)]), (0, 0, 0, [(0, 77), (1, 78)])]
                 demo_begun) 0) 0 0 = 77
   \<and> (\<exists>s2. Abort 0 (writes [(0, 0, 0, [(0, 99)]), (7, 0, 1, [(0, 55)]), (0, 0, 0, [(0, 77), (1, 78)])]
                 demo_begun) = Inr s2
         \<and> attrs (tables s2 0) 0 = (\<lambda>_. 10)
         \<and> version_ptr (tables s2 0) 0 = None)"
proof -
  let ?ws = "[(0, 0, 0, [(0, 99)]), (7, 0, 1, [(0, 55)]), (0, 0, 0, [(0, 77), (1, 78)])]
     :: (txn_ptr \<times> table_ptr \<times> TupleSlot \<times> int ProjectedRow) list"
  have h1: "records_for demo_begun 0 0 (UndoBuffer (contexts demo_begun 0)) = []"
    by (simp add: records_for_def demo_begun_fields)
  have h2: "\<forall>r \<in> set (UndoBuffer (contexts demo_begun 0)). r < next_record demo_begun"
    by (simp add: demo_begun_fields)
  have h3: "\<forall>w \<in> set ?ws. fst w \<noteq> 0 \<longrightarrow> (fst (snd w) \<noteq> 0 \<or> fst (snd (snd w)) \<noteq> 0)"
    by simp
  have h4: "running_ok demo_begun" by (rule running_ok_demo_begun)
  have h5: "(StartTime (contexts demo_begun 0), 0) \<in> set (curr_running_txns demo_begun)"
    by (simp add: demo_begun_fields)
  have e: "UndoBuffer (contexts demo_begun 0) = []" by (simp add: demo_begun_fields)
  have v: "attrs (tables (writes ?ws demo_begun) 0) 0 0 = 77"
    by (simp add: writes_def Update_attrs copy_row_def)
  from Abort_restores_slot[OF h1 h2 h3 h4 h5] obtain s2 where
    a: "Abort 0 (writes ?ws demo_begun) = Inr s2"
    and b: "attrs (tables s2 0) 0 = attrs (tables demo_begun 0) 0"
    and c: "version_ptr (tables s2 0) 0 = version_ptr (tables demo_begun 0) 0"
    by blast
  have b': "attrs (tables s2 0) 0 = (\<lambda>_. 10)"
    using b by (simp add: demo_begun_fields demo_tables_def)
  have c': "version_ptr (tables s2 0) 0 = None"
    using c by (simp add: demo_begun_fields demo_tables_def)
  from a b' c' h1 e h4 h5 v show ?thesis by blast
qed

text \<open>
  Claim C3. If the head of the version chain of the record's slot is null, or the
  timestamp word of the head record differs from the id passed in, \<open>Rollback\<close> returns
  the state unchanged: the tuple, the head of the chain, and everything else.
\<close>

theorem Rollback_not_owner_unchanged:
  assumes "AtomicallyReadVersionPtr (Table (undo_records s r)) (Slot (undo_records s r)) s = None
     \<or> (\<exists>vp. AtomicallyReadVersionPtr (Table (undo_records s r)) (Slot (undo_records s r)) s = Some vp
          \<and> Timestamp (undo_records s vp) \<noteq> txn_id)"
  shows "Rollback txn_id r s = s"
  using assms by (auto simp: Rollback_def Let_def)

theorem Rollback_not_owner_unchanged_witness:
  "(AtomicallyReadVersionPtr (Table (undo_records demo_written_once 0))
        (Slot (undo_records demo_written_once 0)) demo_written_once = None
     \<or> (\<exists>vp. AtomicallyReadVersionPtr (Table (undo_records demo_written_once 0))
                 (Slot (undo_records demo_written_once 0)) demo_written_once = Some vp
          \<and> Timestamp (undo_records demo_written_once vp) \<noteq> 5 + INT64_MIN))
   \<and> Rollback (5 + INT64_MIN) 0 demo_written_once = demo_written_once"
proof -
  have h: "AtomicallyReadVersionPtr (Table (undo_records demo_written_once 0))
        (Slot (undo_records demo_written_once 0)) demo_written_once = None
     \<or> (\<exists>vp. AtomicallyReadVersionPtr (Table (undo_records demo_written_once 0))
                 (Slot (undo_records demo_written_once 0)) demo_written_once = Some vp
          \<and> Timestamp (undo_records demo_written_once vp) \<noteq> 5 + INT64_MIN)"
    by (simp add: AtomicallyReadVersionPtr_def demo_written_once_fields)
  from Rollback_not_owner_unchanged[OF h] h show ?thesis by (rule_tac conjI)
qed

text \<open>
  Claim C4, amended. If the head of the version chain of the slot of the record
  processed is a record \<open>vp\<close> whose timestamp word is the id passed in, \<open>Rollback\<close> copies
  the delta of \<open>vp\<close>, entry by entry, into the tuple slot and sets the head of the chain to
  the \<open>next\<close> of \<open>vp\<close>, and changes nothing else. When the record processed is itself the
  head, these are its own delta and its own \<open>next\<close>. In particular, for a slot for which
  the undo buffer of the transaction holds one record, which is the head of the chain
  and carries the id of the transaction, after \<open>Abort\<close> the tuple is the old tuple with
  the delta of that record copied into it, and the head is the \<open>next\<close> of that record.
\<close>

theorem Rollback_applies_head_record:
  "(AtomicallyReadVersionPtr (Table (undo_records s r)) (Slot (undo_records s r)) s = Some vp
      \<and> Timestamp (undo_records s vp) = txn_id
    \<longrightarrow> Rollback txn_id r s =
         s\<lparr>tables := (tables s)(Table (undo_records s r) :=
            (tables s (Table (undo_records s r)))
            \<lparr>attrs := (attrs (tables s (Table (undo_records s r))))
                (Slot (undo_records s r) :=
                   copy_row (Delta (undo_records s vp))
                     (attrs (tables s (Table (undo_records s r))) (Slot (undo_records s r)))),
             version_ptr := (version_ptr (tables s (Table (undo_records s r))))
                (Slot (undo_records s r) := Next (undo_records s vp))\<rparr>)\<rparr>)
   \<and> (running_ok s \<and> (StartTime (contexts s txn), txn) \<in> set (curr_running_txns s)
        \<and> records_for s table slot (UndoBuffer (contexts s txn)) = [r]
        \<and> version_ptr (tables s table) slot = Some r
        \<and> Timestamp (undo_records s r) = TxnId (contexts s txn)
    \<longrightarrow> (\<exists>s'. Abort txn s = Inr s'
          \<and> attrs (tables s' table) slot
               = copy_row (Delta (undo_records s r)) (attrs (tables s table) slot)
          \<and> version_ptr (tables s' table) slot = Next (undo_records s r)))"
proof (rule conjI; rule impI)
  assume a: "AtomicallyReadVersionPtr (Table (undo_records s r)) (Slot (undo_records s r)) s = Some vp
      \<and> Timestamp (undo_records s vp) = txn_id"
  from a have 1: "AtomicallyReadVersionPtr (Table (undo_records s r)) (Slot (undo_records s r)) s = Some vp"
    and 2: "Timestamp (undo_records s vp) = txn_id" by blast+
  show "Rollback txn_id r s =
         s\<lparr>tables := (tables s)(Table (undo_records s r) :=
            (tables s (Table (undo_records s r)))
            \<lparr>attrs := (attrs (tables s (Table (undo_records s r))))
                (Slot (undo_records s r) :=
                   copy_row (Delta (undo_records s vp))
                     (attrs (tables s (Table (undo_records s r))) (Slot (undo_records s r)))),
             version_ptr := (version_ptr (tables s (Table (undo_records s r))))
                (Slot (undo_records s r) := Next (undo_records s vp))\<rparr>)\<rparr>"
    by (rule Rollback_owned[OF 1 2])
next
  assume a: "running_ok s \<and> (StartTime (contexts s txn), txn) \<in> set (curr_running_txns s)
        \<and> records_for s table slot (UndoBuffer (contexts s txn)) = [r]
        \<and> version_ptr (tables s table) slot = Some r
        \<and> Timestamp (undo_records s r) = TxnId (contexts s txn)"
  from a have ok: "running_ok s"
    and reg: "(StartTime (contexts s txn), txn) \<in> set (curr_running_txns s)"
    and rf: "records_for s table slot (UndoBuffer (contexts s txn)) = [r]"
    and hd: "version_ptr (tables s table) slot = Some r"
    and ts: "Timestamp (undo_records s r) = TxnId (contexts s txn)"
    by blast+
  have oc: "owns_chain s txn table slot [r] (Next (undo_records s r))"
    unfolding owns_chain_def using rf hd ts by simp
  from Abort_slot[OF oc ok reg] obtain s' where
    1: "Abort txn s = Inr s'"
    and 2: "version_ptr (tables s' table) slot = Next (undo_records s r)"
    and 3: "attrs (tables s' table) slot
       = fold (\<lambda>p. copy_row (Delta (undo_records s p))) [r] (attrs (tables s table) slot)"
    by blast
  from 3 have 4: "attrs (tables s' table) slot
       = copy_row (Delta (undo_records s r)) (attrs (tables s table) slot)" by simp
  from 1 2 4 show "\<exists>s'. Abort txn s = Inr s'
          \<and> attrs (tables s' table) slot
               = copy_row (Delta (undo_records s r)) (attrs (tables s table) slot)
          \<and> version_ptr (tables s' table) slot = Next (undo_records s r)"
    by blast
qed

theorem Rollback_applies_head_record_witness:
  "AtomicallyReadVersionPtr (Table (undo_records demo_written_once 0))
      (Slot (undo_records demo_written_once 0)) demo_written_once = Some 0
   \<and> Timestamp (undo_records demo_written_once 0) = 1 + INT64_MIN
   \<and> attrs (tables (Rollback (1 + INT64_MIN) 0 demo_written_once) 0) 0 0 = 10
   \<and> version_ptr (tables (Rollback (1 + INT64_MIN) 0 demo_written_once) 0) 0 = None
   \<and> running_ok demo_written_once
   \<and> (StartTime (contexts demo_written_once 0), 0) \<in> set (curr_running_txns demo_written_once)
   \<and> records_for demo_written_once 0 0 (UndoBuffer (contexts demo_written_once 0)) = [0]
   \<and> version_ptr (tables demo_written_once 0) 0 = Some 0
   \<and> Timestamp (undo_records demo_written_once 0) = TxnId (contexts demo_written_once 0)
   \<and> (\<exists>s'. Abort 0 demo_written_once = Inr s'
         \<and> attrs (tables s' 0) 0 0 = 10
         \<and> version_ptr (tables s' 0) 0 = None)"
proof -
  let ?s = "demo_written_once"
  have h1: "AtomicallyReadVersionPtr (Table (undo_records ?s 0)) (Slot (undo_records ?s 0)) ?s = Some 0"
    by (simp add: AtomicallyReadVersionPtr_def demo_written_once_fields)
  have h2: "Timestamp (undo_records ?s 0) = 1 + INT64_MIN"
    by (simp add: demo_written_once_fields)
  have h3: "running_ok ?s" by (rule running_ok_demo_written_once)
  have h4: "(StartTime (contexts ?s 0), 0) \<in> set (curr_running_txns ?s)"
    by (simp add: demo_written_once_fields)
  have h5: "records_for ?s 0 0 (UndoBuffer (contexts ?s 0)) = [0]"
    by (simp add: records_for_def demo_written_once_fields)
  have h6: "version_ptr (tables ?s 0) 0 = Some 0" by (simp add: demo_written_once_fields)
  have h7: "Timestamp (undo_records ?s 0) = TxnId (contexts ?s 0)"
    by (simp add: demo_written_once_fields)
  note th = Rollback_applies_head_record[of ?s 0 0 "1 + INT64_MIN" 0 0 0]
  from th h1 h2 have eq: "Rollback (1 + INT64_MIN) 0 ?s =
         ?s\<lparr>tables := (tables ?s)(Table (undo_records ?s 0) :=
            (tables ?s (Table (undo_records ?s 0)))
            \<lparr>attrs := (attrs (tables ?s (Table (undo_records ?s 0))))
                (Slot (undo_records ?s 0) :=
                   copy_row (Delta (undo_records ?s 0))
                     (attrs (tables ?s (Table (undo_records ?s 0))) (Slot (undo_records ?s 0)))),
             version_ptr := (version_ptr (tables ?s (Table (undo_records ?s 0))))
                (Slot (undo_records ?s 0) := Next (undo_records ?s 0))\<rparr>)\<rparr>"
    by blast
  have r1: "attrs (tables (Rollback (1 + INT64_MIN) 0 ?s) 0) 0 0 = 10"
    unfolding eq by (simp add: demo_written_once_fields copy_row_def)
  have r2: "version_ptr (tables (Rollback (1 + INT64_MIN) 0 ?s) 0) 0 = None"
    unfolding eq by (simp add: demo_written_once_fields)
  from th h3 h4 h5 h6 h7 obtain s' where
    a: "Abort 0 ?s = Inr s'"
    and b: "attrs (tables s' 0) 0 = copy_row (Delta (undo_records ?s 0)) (attrs (tables ?s 0) 0)"
    and c: "version_ptr (tables s' 0) 0 = Next (undo_records ?s 0)"
    by blast
  have b': "attrs (tables s' 0) 0 0 = 10"
    unfolding b by (simp add: demo_written_once_fields copy_row_def)
  have c': "version_ptr (tables s' 0) 0 = None"
    unfolding c by (simp add: demo_written_once_fields)
  from h1 h2 r1 r2 h3 h4 h5 h6 h7 a b' c' show ?thesis by blast
qed

text \<open>
  The claim as the specification words it, with the delta and the \<open>next\<close> of the record
  processed, fails when the transaction wrote the slot twice: the rollback of the older
  record finds the newer record at the head, copies the newer delta (99, not 10) and
  sets the head to the older record, not to the \<open>next\<close> of the older record.
\<close>

theorem Rollback_other_record_counterexample:
  "AtomicallyReadVersionPtr (Table (undo_records demo_written_twice 0))
      (Slot (undo_records demo_written_twice 0)) demo_written_twice = Some 1
   \<and> Timestamp (undo_records demo_written_twice 1) = 1 + INT64_MIN
   \<and> TxnId (contexts demo_written_twice 0) = 1 + INT64_MIN
   \<and> attrs (tables (Rollback (1 + INT64_MIN) 0 demo_written_twice) 0) 0 0 = 99
   \<and> copy_row (Delta (undo_records demo_written_twice 0)) (attrs (tables demo_written_twice 0) 0) 0 = 10
   \<and> attrs (tables (Rollback (1 + INT64_MIN) 0 demo_written_twice) 0) 0
        \<noteq> copy_row (Delta (undo_records demo_written_twice 0)) (attrs (tables demo_written_twice 0) 0)
   \<and> version_ptr (tables (Rollback (1 + INT64_MIN) 0 demo_written_twice) 0) 0 = Some 0
   \<and> Next (undo_records demo_written_twice 0) = None
   \<and> version_ptr (tables (Rollback (1 + INT64_MIN) 0 demo_written_twice) 0) 0
        \<noteq> Next (undo_records demo_written_twice 0)"
proof -
  have a: "attrs (tables (Rollback (1 + INT64_MIN) 0 demo_written_twice) 0) 0 0 = 99"
    by (rule Rollback_demo_written_twice(2))
  have b: "copy_row (Delta (undo_records demo_written_twice 0))
      (attrs (tables demo_written_twice 0) 0) 0 = 10"
    by (simp add: demo_written_twice_fields copy_row_def)
  have c: "attrs (tables (Rollback (1 + INT64_MIN) 0 demo_written_twice) 0) 0
        \<noteq> copy_row (Delta (undo_records demo_written_twice 0)) (attrs (tables demo_written_twice 0) 0)"
  proof
    assume "attrs (tables (Rollback (1 + INT64_MIN) 0 demo_written_twice) 0) 0
        = copy_row (Delta (undo_records demo_written_twice 0)) (attrs (tables demo_written_twice 0) 0)"
    then have "attrs (tables (Rollback (1 + INT64_MIN) 0 demo_written_twice) 0) 0 0
        = copy_row (Delta (undo_records demo_written_twice 0)) (attrs (tables demo_written_twice 0) 0) 0"
      by (rule arg_cong)
    with a b show False by simp
  qed
  show ?thesis
    using a b c
    by (simp add: AtomicallyReadVersionPtr_def demo_written_twice_fields Rollback_demo_written_twice)
qed

text \<open>
  Claim C5. In a well-formed running table, \<open>OldestTransactionStartTime\<close> returns the
  value of the timestamp source when no transaction is running, which is the start
  time the next \<open>BeginTransaction\<close> gives; otherwise it returns the start time of a
  running transaction that is below or equal to the start time of every running
  transaction, in the signed order of timestamps.
\<close>

theorem Oldest_is_minimum:
  assumes "running_ok s"
  shows "(curr_running_txns s = [] \<longrightarrow>
            OldestTransactionStartTime s = time s
          \<and> (\<forall>txn s'. BeginTransaction s = Inr (txn, s') \<longrightarrow>
                StartTime (contexts s' txn) = OldestTransactionStartTime s))
     \<and> (curr_running_txns s \<noteq> [] \<longrightarrow>
          (\<exists>e \<in> set (curr_running_txns s).
              OldestTransactionStartTime s = StartTime (contexts s (snd e)))
        \<and> (\<forall>e \<in> set (curr_running_txns s).
              OldestTransactionStartTime s <=s StartTime (contexts s (snd e))))"
proof (cases "curr_running_txns s")
  case Nil
  have "OldestTransactionStartTime s = time s"
    by (simp add: OldestTransactionStartTime_def Nil)
  moreover have "\<forall>txn s'. BeginTransaction s = Inr (txn, s') \<longrightarrow>
                StartTime (contexts s' txn) = time s"
    using BeginTransaction_Inr(3) by blast
  ultimately show ?thesis using Nil by simp
next
  case (Cons e m)
  from assms Cons have keys: "\<forall>x \<in> set (e # m). StartTime (contexts s (snd x)) = fst x"
    and lt: "\<forall>x \<in> set m. fst e <s fst x"
    by (auto simp: running_ok_def list_all_iff)
  have old: "OldestTransactionStartTime s = fst e"
    using keys by (simp add: OldestTransactionStartTime_def Cons)
  have "\<forall>x \<in> set (e # m). fst e <=s fst x"
    using lt by (auto simp: signed.less_imp_le)
  with keys old show ?thesis by (auto simp: Cons)
qed

theorem Oldest_is_minimum_witness:
  "running_ok demo_two_running
   \<and> curr_running_txns demo_two_running = [(1, 0), (2, 1)]
   \<and> OldestTransactionStartTime demo_two_running = 1
   \<and> OldestTransactionStartTime demo_two_running <=s StartTime (contexts demo_two_running 0)
   \<and> OldestTransactionStartTime demo_two_running <=s StartTime (contexts demo_two_running 1)
   \<and> running_ok demo_fresh
   \<and> curr_running_txns demo_fresh = []
   \<and> OldestTransactionStartTime demo_fresh = time demo_fresh"
proof -
  have h: "running_ok demo_two_running"
    by (simp add: running_ok_def demo_two_running_fields word_sless_alt)
  have h': "running_ok demo_fresh" by (simp add: demo_fresh_def running_ok_fresh)
  have e: "curr_running_txns demo_fresh = []" by (simp add: demo_fresh_def fresh_manager_def)
  have v: "OldestTransactionStartTime demo_two_running = 1"
    by (simp add: OldestTransactionStartTime_def demo_two_running_fields)
  from Oldest_is_minimum[OF h] Oldest_is_minimum[OF h'] h h' e v show ?thesis
    by (simp add: demo_two_running_fields)
qed

text \<open>
  Claim C6. The timestamps that \<open>BeginTransaction\<close> and \<open>Commit\<close> draw in a run of
  operations are the successive values of the timestamp source, one apart. In a run
  that does not exhaust the non-negative range of the 64-bit source they are strictly
  increasing in the order drawn, and lie between the value of the source before the
  run and its value after. In particular, after a begin, the commit of that transaction
  and another begin, the commit time is above the first start time and the second start
  time is above the commit time.
\<close>

theorem timestamps_strictly_increasing:
  "(run cs s = Inr (ts, s')
      \<longrightarrow> ts = map (\<lambda>i. time s + of_nat i) [0 ..< length ts]
          \<and> time s' = time s + of_nat (length ts))
   \<and> (run cs s = Inr (ts, s') \<and> sint (time s) + int (length cs) < 2 ^ 63
      \<longrightarrow> sorted_wrt (<s) ts \<and> (\<forall>t \<in> set ts. time s <=s t \<and> t <s time s'))
   \<and> (BeginTransaction s = Inr (txn1, s1) \<and> Commit txn1 s1 = Inr (commit_time, s2)
        \<and> BeginTransaction s2 = Inr (txn2, s3) \<and> sint (time s) + 2 < 2 ^ 63
      \<longrightarrow> StartTime (contexts s1 txn1) <s commit_time
          \<and> commit_time <s StartTime (contexts s3 txn2))"
proof (intro conjI impI)
  assume rn: "run cs s = Inr (ts, s')"
  from run_timestamps[OF rn]
  show "ts = map (\<lambda>i. time s + of_nat i) [0 ..< length ts]"
    and "time s' = time s + of_nat (length ts)"
    by simp_all
next
  assume a: "run cs s = Inr (ts, s') \<and> sint (time s) + int (length cs) < 2 ^ 63"
  then have rn: "run cs s = Inr (ts, s')" and bound: "sint (time s) + int (length cs) < 2 ^ 63"
    by simp_all
  from run_timestamps[OF rn] have
    ts: "ts = map (\<lambda>i. time s + of_nat i) [0 ..< length ts]"
    and fin: "time s' = time s + of_nat (length ts)"
    and len: "length ts \<le> length cs"
    by simp_all
  from bound len have b': "sint (time s) + int (length ts) < 2 ^ 63" by linarith
  have "sorted_wrt (<s) (map (\<lambda>i. time s + of_nat i) [0 ..< length ts])"
    by (rule sorted_draws[OF b'])
  with ts show "sorted_wrt (<s) ts" by simp
  show "\<forall>t \<in> set ts. time s <=s t \<and> t <s time s'"
  proof
    fix t assume "t \<in> set ts"
    with ts have "t \<in> set (map (\<lambda>i. time s + of_nat i) [0 ..< length ts])" by simp
    then obtain i where i: "i < length ts" and t: "t = time s + of_nat i" by auto
    from i b' have bi: "sint (time s) + int i < 2 ^ 63" by linarith
    show "time s <=s t \<and> t <s time s'"
      unfolding t fin using sle_add_nat[OF bi] sless_add_nat[OF i b'] by simp
  qed
next
  assume a: "BeginTransaction s = Inr (txn1, s1) \<and> Commit txn1 s1 = Inr (commit_time, s2)
        \<and> BeginTransaction s2 = Inr (txn2, s3) \<and> sint (time s) + 2 < 2 ^ 63"
  then have b1: "BeginTransaction s = Inr (txn1, s1)" and c: "Commit txn1 s1 = Inr (commit_time, s2)"
    and b2: "BeginTransaction s2 = Inr (txn2, s3)" and bound: "sint (time s) + 2 < 2 ^ 63"
    by simp_all
  have st1: "StartTime (contexts s1 txn1) = time s + of_nat 0"
    using BeginTransaction_Inr(3)[OF b1] by simp
  have ct: "commit_time = time s + of_nat 1"
    using Commit_Inr(1)[OF c] BeginTransaction_Inr(2)[OF b1] by simp
  have st2: "StartTime (contexts s3 txn2) = time s + of_nat 2"
    using BeginTransaction_Inr(3)[OF b2] Commit_Inr(2)[OF c] BeginTransaction_Inr(2)[OF b1]
    by simp
  show "StartTime (contexts s1 txn1) <s commit_time"
    unfolding st1 ct using bound by (intro sless_add_nat) simp_all
  show "commit_time <s StartTime (contexts s3 txn2)"
    unfolding st2 ct using bound by (intro sless_add_nat) simp_all
qed

theorem timestamps_strictly_increasing_witness:
  "run [Begin, CommitOp 0, Begin] demo_fresh = Inr ([1, 2, 3], demo_begun_again)
   \<and> sint (time demo_fresh) + int (length [Begin, CommitOp 0, Begin]) < 2 ^ 63
   \<and> sorted_wrt (<s) [1, 2, 3 :: timestamp_t]
   \<and> BeginTransaction demo_fresh = Inr (0, demo_begun)
   \<and> Commit 0 demo_begun = Inr (2, demo_committed)
   \<and> BeginTransaction demo_committed = Inr (1, demo_begun_again)
   \<and> sint (time demo_fresh) + 2 < 2 ^ 63
   \<and> StartTime (contexts demo_begun 0) <s 2
   \<and> 2 <s StartTime (contexts demo_begun_again 1)"
proof -
  have t: "time demo_fresh = 1" by (simp add: demo_fresh_def fresh_manager_def)
  have h1: "run [Begin, CommitOp 0, Begin] demo_fresh = Inr ([1, 2, 3], demo_begun_again)"
    by (rule run_demo)
  have h2: "sint (time demo_fresh) + int (length [Begin, CommitOp 0, Begin]) < 2 ^ 63"
    by (simp add: t)
  have h3: "BeginTransaction demo_fresh = Inr (0, demo_begun)" by (rule Begin_demo_fresh)
  have h4: "Commit 0 demo_begun = Inr (2, demo_committed)" by (rule Commit_demo_begun)
  have h5: "BeginTransaction demo_committed = Inr (1, demo_begun_again)"
    by (rule Begin_demo_committed)
  have h6: "sint (time demo_fresh) + 2 < 2 ^ 63" by (simp add: t)
  note th = timestamps_strictly_increasing[of "[Begin, CommitOp 0, Begin]" demo_fresh
      "[1, 2, 3]" demo_begun_again 0 demo_begun 2 demo_committed 1 demo_begun_again]
  from th h1 h2 have a: "sorted_wrt (<s) [1, 2, 3 :: timestamp_t]" by blast
  from th h3 h4 h5 h6 have b: "StartTime (contexts demo_begun 0) <s 2
      \<and> 2 <s StartTime (contexts demo_begun_again 1)" by blast
  from a b h1 h2 h3 h4 h5 h6 show ?thesis by blast
qed

text \<open>
  Claim C7. Starting with an empty completed queue, as a call of
  \<open>CompletedTransactionsForGC\<close> or the construction of the manager leaves it, and after
  any run of begins, commits, aborts and readings of the oldest start time, the call
  returns the transactions committed or aborted during the run, in completion order, if
  GC is enabled, and the empty queue otherwise. It leaves the queue of the manager
  empty, and a call that follows at once returns the empty queue.
\<close>

theorem completed_queue_handoff:
  assumes "completed_txns s = []"
    and "run cs s = Inr (ts, s1)"
    and "TakeCompletedOp \<notin> set cs"
  shows "\<exists>s2. CompletedTransactionsForGC s1
                = Inr (if gc_enabled s then completed_by cs else [], s2)
      \<and> completed_txns s2 = []
      \<and> CompletedTransactionsForGC s2 = Inr ([], s2)"
proof -
  from run_completed[OF assms(2,3)] assms(1)
  have q: "completed_txns s1 = (if gc_enabled s then completed_by cs else [])" by simp
  let ?s2 = "s1\<lparr>completed_txns := []\<rparr>"
  have "CompletedTransactionsForGC s1 = Inr (completed_txns s1, ?s2)"
    by (simp add: CompletedTransactionsForGC_def Let_def)
  moreover have "completed_txns ?s2 = []" by simp
  moreover have "CompletedTransactionsForGC ?s2 = Inr ([], ?s2)"
    by (simp add: CompletedTransactionsForGC_def Let_def)
  ultimately show ?thesis using q by metis
qed

theorem completed_queue_handoff_witness:
  "completed_txns demo_fresh = []
   \<and> \<not> isl (run [Begin, CommitOp 0, Begin, AbortOp 1] demo_fresh)
   \<and> TakeCompletedOp \<notin> set [Begin, CommitOp 0, Begin, AbortOp 1]
   \<and> (\<exists>s2. CompletedTransactionsForGC
                (snd (projr (run [Begin, CommitOp 0, Begin, AbortOp 1] demo_fresh)))
              = Inr ([0, 1], s2)
         \<and> completed_txns s2 = []
         \<and> CompletedTransactionsForGC s2 = Inr ([], s2))"
proof -
  let ?cs = "[Begin, CommitOp 0, Begin, AbortOp 1]"
  have h1: "completed_txns demo_fresh = []" by (simp add: demo_fresh_def fresh_manager_def)
  have g: "gc_enabled demo_fresh" by (simp add: demo_fresh_def fresh_manager_def)
  have ab: "\<not> isl (Abort 1 demo_begun_again)"
    by (simp add: Abort_def Let_def erase_def demo_begun_again_def demo_committed_def demo_begun_def
        demo_fresh_def fresh_manager_def BeginTransaction_def Commit_def new_TransactionContext_def)
  have r: "\<not> isl (run ?cs demo_fresh)"
    using ab
    by (cases "Abort 1 demo_begun_again")
       (simp_all add: Begin_demo_fresh Commit_demo_begun Begin_demo_committed)
  then have h2: "run ?cs demo_fresh
      = Inr (fst (projr (run ?cs demo_fresh)), snd (projr (run ?cs demo_fresh)))"
    by (cases "run ?cs demo_fresh") simp_all
  have h3: "TakeCompletedOp \<notin> set ?cs" by simp
  from completed_queue_handoff[OF h1 h2 h3] obtain s2 where
    "CompletedTransactionsForGC (snd (projr (run ?cs demo_fresh)))
       = Inr (if gc_enabled demo_fresh then completed_by ?cs else [], s2)"
    "completed_txns s2 = []" "CompletedTransactionsForGC s2 = Inr ([], s2)"
    by blast
  then have "CompletedTransactionsForGC (snd (projr (run ?cs demo_fresh))) = Inr ([0, 1], s2)
      \<and> completed_txns s2 = [] \<and> CompletedTransactionsForGC s2 = Inr ([], s2)"
    using g by simp
  with h1 r h3 show ?thesis by blast
qed

text \<open>
  Claim C8, amended. From a fresh manager whose timestamp source holds \<open>t0\<close>, two begins
  give the start times \<open>t0\<close> and \<open>t0 + 1\<close>; the oldest start time is then \<open>t0\<close>, after the
  commit of the first transaction \<open>t0 + 1\<close>, and after the commit of the second \<open>t0 + 4\<close>,
  the next timestamp after the four drawn. With the start times 1 and 2 the last
  reading is 5.
\<close>

theorem horizon_scenario_result:
  assumes "t0 <s t0 + 1"
  shows "horizon_scenario (fresh_manager t0 gc tabs) = Inr (t0, t0 + 1, t0, t0 + 1, t0 + 4)"
proof -
  have ne: "t0 + 1 \<noteq> t0" using assms by auto
  have nl: "\<not> t0 + 1 <s t0" using assms by (meson signed.less_asym)
  show ?thesis
    using ne nl
    by (simp add: horizon_scenario_def fresh_manager_def BeginTransaction_def Commit_def Let_def
        new_TransactionContext_def erase_def OldestTransactionStartTime_def)
qed

theorem horizon_scenario_result_witness:
  "(1 :: timestamp_t) <s 1 + 1
   \<and> horizon_scenario (fresh_manager 1 True demo_tables) = Inr (1, 1 + 1, 1, 1 + 1, 1 + 4)"
proof -
  have h: "(1 :: timestamp_t) <s 1 + 1" by (simp add: word_sless_alt)
  from horizon_scenario_result[OF h, of True demo_tables] h show ?thesis by blast
qed

text \<open>
  The readings the specification lists, start times 1 and 2 with a last reading of 4,
  do not occur: with start times 1 and 2 the last reading is 5, and the last reading
  is 4 when the start times are 0 and 1.
\<close>

theorem horizon_scenario_counterexample:
  "horizon_scenario (fresh_manager 1 True demo_tables) = Inr (1, 2, 1, 2, 5)
   \<and> horizon_scenario (fresh_manager 1 True demo_tables) \<noteq> Inr (1, 2, 1, 2, 4)
   \<and> horizon_scenario (fresh_manager 0 True demo_tables) = Inr (0, 1, 0, 1, 4)
   \<and> horizon_scenario (fresh_manager 0 True demo_tables) \<noteq> Inr (1, 2, 1, 2, 4)"
  by (simp add: horizon_scenario_demo)

text \<open>
  Claim C9, amended. With a well-formed running table in which the value of the
  timestamp source is not a key, a begin followed at once by the abort of the
  transaction begun, whose undo buffer is empty, advances the timestamp source by
  exactly one (the abort draws no timestamp), changes no table and no undo record,
  leaves the running table as it was, and changes the completed queue only by pushing
  the aborted transaction when GC is enabled.
\<close>

theorem begin_then_abort_effect:
  assumes "running_ok s" and "time s \<notin> fst ` set (curr_running_txns s)"
  shows "\<exists>txn s1 s2. BeginTransaction s = Inr (txn, s1)
      \<and> UndoBuffer (contexts s1 txn) = []
      \<and> Abort txn s1 = Inr s2
      \<and> begin_then_abort s = Inr s2
      \<and> time s2 = time s + 1
      \<and> tables s2 = tables s
      \<and> undo_records s2 = undo_records s
      \<and> curr_running_txns s2 = curr_running_txns s
      \<and> completed_txns s2 = (if gc_enabled s then completed_txns s @ [txn] else completed_txns s)"
proof -
  from BeginTransaction_succeeds[OF assms] obtain s1 where
    b: "BeginTransaction s = Inr (next_context s, s1)" by blast
  note bf = BeginTransaction_Inr[OF b]
  let ?txn = "next_context s"
  have cnt: "length (filter (\<lambda>e. fst e = time s) (curr_running_txns s1)) = 1"
    unfolding bf(12) by (rule count_emplace[OF assms(2)])
  have er: "filter (\<lambda>e. fst e \<noteq> time s) (curr_running_txns s1) = curr_running_txns s"
    unfolding bf(12) by (rule erase_emplace[OF assms(2)])
  let ?s2 = "if gc_enabled s1
             then s1\<lparr>curr_running_txns := curr_running_txns s, completed_txns := completed_txns s1 @ [?txn]\<rparr>
             else s1\<lparr>curr_running_txns := curr_running_txns s\<rparr>"
  have a: "Abort ?txn s1 = Inr ?s2"
    using cnt er bf(3,5) by (simp add: Abort_def Let_def erase_def)
  have "begin_then_abort s = Inr ?s2"
    using a b by (simp add: begin_then_abort_def)
  moreover have "time ?s2 = time s + 1" "tables ?s2 = tables s" "undo_records ?s2 = undo_records s"
     "curr_running_txns ?s2 = curr_running_txns s"
     "completed_txns ?s2 = (if gc_enabled s then completed_txns s @ [?txn] else completed_txns s)"
    using bf(2,6,7,8,9) by simp_all
  ultimately show ?thesis using a b bf(5) by blast
qed

theorem begin_then_abort_effect_witness:
  "running_ok demo_fresh
   \<and> time demo_fresh \<notin> fst ` set (curr_running_txns demo_fresh)
   \<and> (\<exists>txn s1 s2. BeginTransaction demo_fresh = Inr (txn, s1)
         \<and> UndoBuffer (contexts s1 txn) = []
         \<and> Abort txn s1 = Inr s2
         \<and> time s2 = 2
         \<and> tables s2 = demo_tables
         \<and> curr_running_txns s2 = []
         \<and> completed_txns s2 = [txn])"
proof -
  have h1: "running_ok demo_fresh" by (simp add: demo_fresh_def running_ok_fresh)
  have h2: "time demo_fresh \<notin> fst ` set (curr_running_txns demo_fresh)"
    by (simp add: demo_fresh_def fresh_manager_def)
  from begin_then_abort_effect[OF h1 h2] obtain txn s1 s2 where
    a: "BeginTransaction demo_fresh = Inr (txn, s1)"
    and b: "UndoBuffer (contexts s1 txn) = []"
    and c: "Abort txn s1 = Inr s2"
    and d: "time s2 = time demo_fresh + 1"
    and e: "tables s2 = tables demo_fresh"
    and f: "curr_running_txns s2 = curr_running_txns demo_fresh"
    and g: "completed_txns s2 =
        (if gc_enabled demo_fresh then completed_txns demo_fresh @ [txn] else completed_txns demo_fresh)"
    by blast
  have d': "time s2 = 2" using d by (simp add: demo_fresh_def fresh_manager_def)
  have e': "tables s2 = demo_tables" using e by (simp add: demo_fresh_def fresh_manager_def)
  have f': "curr_running_txns s2 = []" using f by (simp add: demo_fresh_def fresh_manager_def)
  have g': "completed_txns s2 = [txn]" using g by (simp add: demo_fresh_def fresh_manager_def)
  from a b c d' e' f' g' h1 h2 show ?thesis by blast
qed

text \<open>
  The count of the specification, two timestamps consumed, does not occur: from a fresh
  manager whose source holds 1, the source holds 2 after the begin and the abort.
\<close>

theorem begin_then_abort_counterexample:
  "\<not> isl (begin_then_abort demo_fresh)
   \<and> time demo_fresh = 1
   \<and> time (projr (begin_then_abort demo_fresh)) = time demo_fresh + 1
   \<and> time (projr (begin_then_abort demo_fresh)) \<noteq> time demo_fresh + 2"
proof -
  have t: "time demo_fresh = 1" by (simp add: demo_fresh_def fresh_manager_def)
  show ?thesis by (simp add: begin_then_abort_demo t)
qed

text \<open>
  Claim C10. \<open>Rollback\<close> reads of the record passed in only its table and slot: two
  records for the same slot give the same result. When the head of the chain of that
  slot carries the id passed in, \<open>Rollback\<close> copies the delta of the head record into
  the tuple and sets the head to the \<open>next\<close> of the head record, whichever record was
  passed in. So when the records of a transaction for a slot sit on top of the chain,
  newest first, \<open>Abort\<close>, which visits the undo buffer oldest first, copies their deltas
  into the tuple newest first and leaves the head at what follows the oldest.
\<close>

theorem Rollback_follows_chain_head:
  "(Table (undo_records s r1) = Table (undo_records s r2)
      \<and> Slot (undo_records s r1) = Slot (undo_records s r2)
    \<longrightarrow> Rollback txn_id r1 s = Rollback txn_id r2 s)
   \<and> (version_ptr (tables s (Table (undo_records s r))) (Slot (undo_records s r)) = Some vp
        \<and> Timestamp (undo_records s vp) = txn_id
    \<longrightarrow> attrs (tables (Rollback txn_id r s) (Table (undo_records s r))) (Slot (undo_records s r))
           = copy_row (Delta (undo_records s vp))
               (attrs (tables s (Table (undo_records s r))) (Slot (undo_records s r)))
        \<and> version_ptr (tables (Rollback txn_id r s) (Table (undo_records s r))) (Slot (undo_records s r))
           = Next (undo_records s vp))
   \<and> (running_ok s \<and> (StartTime (contexts s txn), txn) \<in> set (curr_running_txns s)
        \<and> owns_chain s txn table slot
             (rev (records_for s table slot (UndoBuffer (contexts s txn)))) h0
    \<longrightarrow> (\<exists>s'. Abort txn s = Inr s'
          \<and> attrs (tables s' table) slot
               = fold (\<lambda>p. copy_row (Delta (undo_records s p)))
                   (rev (records_for s table slot (UndoBuffer (contexts s txn))))
                   (attrs (tables s table) slot)
          \<and> version_ptr (tables s' table) slot = h0))"
proof -
  have A: "Table (undo_records s r1) = Table (undo_records s r2)
      \<and> Slot (undo_records s r1) = Slot (undo_records s r2)
    \<longrightarrow> Rollback txn_id r1 s = Rollback txn_id r2 s"
    using Rollback_same_slot[of s r1 r2 txn_id] by blast
  have B: "version_ptr (tables s (Table (undo_records s r))) (Slot (undo_records s r)) = Some vp
        \<and> Timestamp (undo_records s vp) = txn_id
    \<longrightarrow> attrs (tables (Rollback txn_id r s) (Table (undo_records s r))) (Slot (undo_records s r))
           = copy_row (Delta (undo_records s vp))
               (attrs (tables s (Table (undo_records s r))) (Slot (undo_records s r)))
        \<and> version_ptr (tables (Rollback txn_id r s) (Table (undo_records s r))) (Slot (undo_records s r))
           = Next (undo_records s vp)"
    using Rollback_pop[of s r vp txn_id] by blast
  have C: "running_ok s \<and> (StartTime (contexts s txn), txn) \<in> set (curr_running_txns s)
        \<and> owns_chain s txn table slot
             (rev (records_for s table slot (UndoBuffer (contexts s txn)))) h0
    \<longrightarrow> (\<exists>s'. Abort txn s = Inr s'
          \<and> attrs (tables s' table) slot
               = fold (\<lambda>p. copy_row (Delta (undo_records s p)))
                   (rev (records_for s table slot (UndoBuffer (contexts s txn))))
                   (attrs (tables s table) slot)
          \<and> version_ptr (tables s' table) slot = h0)"
    using Abort_slot[of s txn table slot "rev (records_for s table slot (UndoBuffer (contexts s txn)))" h0]
    by blast
  from A B C show ?thesis by blast
qed

theorem Rollback_follows_chain_head_witness:
  "Table (undo_records demo_written_twice 0) = Table (undo_records demo_written_twice 1)
   \<and> Slot (undo_records demo_written_twice 0) = Slot (undo_records demo_written_twice 1)
   \<and> Rollback (1 + INT64_MIN) 0 demo_written_twice = Rollback (1 + INT64_MIN) 1 demo_written_twice
   \<and> version_ptr (tables demo_written_twice (Table (undo_records demo_written_twice 0)))
        (Slot (undo_records demo_written_twice 0)) = Some 1
   \<and> Timestamp (undo_records demo_written_twice 1) = 1 + INT64_MIN
   \<and> attrs (tables (Rollback (1 + INT64_MIN) 0 demo_written_twice) 0) 0 0 = 99
   \<and> version_ptr (tables (Rollback (1 + INT64_MIN) 0 demo_written_twice) 0) 0 = Some 0
   \<and> running_ok demo_written_twice
   \<and> (StartTime (contexts demo_written_twice 0), 0) \<in> set (curr_running_txns demo_written_twice)
   \<and> rev (records_for demo_written_twice 0 0 (UndoBuffer (contexts demo_written_twice 0))) = [1, 0]
   \<and> owns_chain demo_written_twice 0 0 0 [1, 0] None
   \<and> (\<exists>s'. Abort 0 demo_written_twice = Inr s'
         \<and> attrs (tables s' 0) 0 0 = 10
         \<and> version_ptr (tables s' 0) 0 = None)"
proof -
  let ?s = "demo_written_twice"
  have h1: "Table (undo_records ?s 0) = Table (undo_records ?s 1)
      \<and> Slot (undo_records ?s 0) = Slot (undo_records ?s 1)"
    by (simp add: demo_written_twice_fields)
  have h2: "version_ptr (tables ?s (Table (undo_records ?s 0))) (Slot (undo_records ?s 0)) = Some 1"
    by (simp add: demo_written_twice_fields)
  have h3: "Timestamp (undo_records ?s 1) = 1 + INT64_MIN"
    by (simp add: demo_written_twice_fields)
  have h4: "running_ok ?s" by (rule running_ok_demo_written_twice)
  have h5: "(StartTime (contexts ?s 0), 0) \<in> set (curr_running_txns ?s)"
    by (simp add: demo_written_twice_fields)
  have rf: "rev (records_for ?s 0 0 (UndoBuffer (contexts ?s 0))) = [1, 0]"
    by (simp add: records_for_def demo_written_twice_fields)
  have oc: "owns_chain ?s 0 0 0 [1, 0] None"
    by (simp add: owns_chain_def records_for_def demo_written_twice_fields)
  have h6: "owns_chain ?s 0 0 0 (rev (records_for ?s 0 0 (UndoBuffer (contexts ?s 0)))) None"
    unfolding rf by (rule oc)
  note th = Rollback_follows_chain_head[of ?s 0 1 "1 + INT64_MIN" 0 1 0 0 0 None]
  from th h1 have r0: "Rollback (1 + INT64_MIN) 0 ?s = Rollback (1 + INT64_MIN) 1 ?s" by blast
  from th h2 h3 have
    r1: "attrs (tables (Rollback (1 + INT64_MIN) 0 ?s) (Table (undo_records ?s 0))) (Slot (undo_records ?s 0))
           = copy_row (Delta (undo_records ?s 1))
               (attrs (tables ?s (Table (undo_records ?s 0))) (Slot (undo_records ?s 0)))"
    and r2: "version_ptr (tables (Rollback (1 + INT64_MIN) 0 ?s) (Table (undo_records ?s 0)))
           (Slot (undo_records ?s 0)) = Next (undo_records ?s 1)"
    by blast+
  have r1': "attrs (tables (Rollback (1 + INT64_MIN) 0 ?s) 0) 0 0 = 99"
    using r1 by (simp add: demo_written_twice_fields copy_row_def)
  have r2': "version_ptr (tables (Rollback (1 + INT64_MIN) 0 ?s) 0) 0 = Some 0"
    using r2 by (simp add: demo_written_twice_fields)
  from th h4 h5 h6 obtain s' where
    a: "Abort 0 ?s = Inr s'"
    and b: "attrs (tables s' 0) 0
               = fold (\<lambda>p. copy_row (Delta (undo_records ?s p)))
                   (rev (records_for ?s 0 0 (UndoBuffer (contexts ?s 0))))
                   (attrs (tables ?s 0) 0)"
    and c: "version_ptr (tables s' 0) 0 = None"
    by blast
  have b': "attrs (tables s' 0) 0 0 = 10"
    unfolding b rf by (simp add: demo_written_twice_fields copy_row_def)
  from h1 r0 h2 h3 r1' r2' h4 h5 rf oc a b' c show ?thesis by blast
qed

end
